theory Spec2Isabelle
  imports Main "HOL-Library.Word" "HOL-Library.Multiset"
begin

unbundle bit_operations_syntax

section \<open>Characters and errors\<close>

text \<open>
  The library works on bytes.  A \<open>char\<close> of the C++ source is an 8-bit value; where the
  source converts between \<open>char\<close> and \<open>int\<close> the conversion is written out.  The stream
  functions return an \<open>int\<close> that is either a byte \<open>0..255\<close> or \<open>eof\<close> (\<open>-1\<close>).
  \<open>char\<close> is taken to be signed, as on the x86 and ARM Linux targets the library is built
  for, so a \<open>char\<close> pushed on the integer stack of the tokenizer is sign-extended.
\<close>

definition kEOF :: int where
  "kEOF = -1"

definition uchar :: "char \<Rightarrow> int" where
  "uchar c = of_char c"

definition schar :: "char \<Rightarrow> int" where
  "schar c = (if (of_char c :: int) < 128 then of_char c else of_char c - 256)"

definition to_char :: "int \<Rightarrow> char" where
  "to_char i = char_of i"

text \<open>\<open>tolower\<close>, \<open>isspace\<close> and \<open>isdigit\<close> of the C library in the "C" locale.\<close>

definition tolower :: "int \<Rightarrow> int" where
  "tolower ch = (if 65 \<le> ch \<and> ch \<le> 90 then ch + 32 else ch)"

definition isspace :: "int \<Rightarrow> bool" where
  "isspace ch = (ch = 32 \<or> (9 \<le> ch \<and> ch \<le> 13))"

definition isdigit :: "int \<Rightarrow> bool" where
  "isdigit ch = (48 \<le> ch \<and> ch \<le> 57)"

definition tolower_char :: "char \<Rightarrow> char" where
  "tolower_char c = to_char (tolower (uchar c))"

definition toLowerCopy :: "string \<Rightarrow> string" where
  "toLowerCopy s = map tolower_char s"

text \<open>
  Modelled from the spec: \<open>iequals\<close> lives in the text utilities header, which is not part
  of the sources; the spec describes it as "ASCII-only, bytewise, lower-casing A-Z only".
\<close>

definition iequals :: "string \<Rightarrow> string \<Rightarrow> bool" where
  "iequals a b = (toLowerCopy a = toLowerCopy b)"

datatype error =
    Runtime_error string
  | Validation_error string
  | Duplicate_key string
  | Parse_error "32 word" string
  | Out_of_range string
  | Null_pointer

section \<open>Item values (cells)\<close>

text \<open>
  \<open>struct item_value\<close>: a column index, a 16-bit length and a union of an inline buffer
  of \<open>kBufferSize = 8\<close> bytes and a pointer to a heap buffer.  The constructor tags which
  member of the union \<open>create_item\<close> wrote; the list holds the bytes written, the
  terminating NUL included.
\<close>

datatype payload = Local_data string | Heap_data string

record item_value =
  m_column_ix :: "16 word"
  m_length :: "16 word"
  m_payload :: payload

definition kBufferSize :: nat where
  "kBufferSize = 8"

definition uint16_max :: nat where
  "uint16_max = 65535"

definition payload_bytes :: "payload \<Rightarrow> string" where
  "payload_bytes p = (case p of Local_data s \<Rightarrow> s | Heap_data s \<Rightarrow> s)"

text \<open>\<open>item_value::text()\<close>: \<open>m_length\<close> bytes of the buffer \<open>m_length\<close> selects.\<close>

definition text_of :: "item_value \<Rightarrow> string" where
  "text_of iv = take (unat (m_length iv)) (payload_bytes (m_payload iv))"

definition is_local :: "item_value \<Rightarrow> bool" where
  "is_local iv = (case m_payload iv of Local_data _ \<Rightarrow> True | Heap_data _ \<Rightarrow> False)"

text \<open>\<open>category::create_item(uint16_t column_ix, std::string_view text)\<close>.\<close>

definition create_item :: "16 word \<Rightarrow> string \<Rightarrow> error + item_value" where
  "create_item column_ix text =
     (let text_length = length text in
      if text_length + 1 > uint16_max then
        Inl (Runtime_error ''libcifpp does not support string lengths longer than 65535 bytes'')
      else
        Inr \<lparr> m_column_ix = column_ix,
              m_length = of_nat text_length,
              m_payload = (if text_length \<ge> kBufferSize
                           then Heap_data (text @ [CHR 0x00])
                           else Local_data (text @ [CHR 0x00])) \<rparr>)"

section \<open>Regular expressions\<close>

text \<open>
  The sources use \<open>std::regex\<close> twice: for the reserved-word test of
  \<open>is_unquoted_string\<close> and for the type patterns of the validator.  A compiled regular
  expression is modelled by its syntax tree, \<open>regex_match\<close> (a match of the whole input)
  by Brzozowski derivatives.  \<open>Bol\<close> is the assertion \<open>^\<close>; \<open>Dot\<close> is the ECMAScript dot,
  which matches no line terminator; \<open>AnyChar\<close> matches every character; \<open>Cls\<close> and \<open>NCls\<close>
  are bracket expressions.  With \<open>icase\<close> characters are compared after \<open>tolower\<close>.
\<close>

datatype regex =
    Nomatch
  | Eps
  | Bol
  | Lit char
  | Dot
  | AnyChar
  | Cls "char list"
  | NCls "char list"
  | Cat regex regex
  | Alt regex regex
  | Star regex
  | Plus regex

fun nullable :: "bool \<Rightarrow> regex \<Rightarrow> bool" where
  "nullable bol Nomatch = False"
| "nullable bol Eps = True"
| "nullable bol Bol = bol"
| "nullable bol (Lit c) = False"
| "nullable bol Dot = False"
| "nullable bol AnyChar = False"
| "nullable bol (Cls cs) = False"
| "nullable bol (NCls cs) = False"
| "nullable bol (Cat r s) = (nullable bol r \<and> nullable bol s)"
| "nullable bol (Alt r s) = (nullable bol r \<or> nullable bol s)"
| "nullable bol (Star r) = True"
| "nullable bol (Plus r) = nullable bol r"

definition same_char :: "bool \<Rightarrow> char \<Rightarrow> char \<Rightarrow> bool" where
  "same_char icase a b = (if icase then tolower_char a = tolower_char b else a = b)"

definition line_terminator :: "char \<Rightarrow> bool" where
  "line_terminator c = (c = CHR 0x0A \<or> c = CHR 0x0D)"

fun deriv :: "bool \<Rightarrow> bool \<Rightarrow> char \<Rightarrow> regex \<Rightarrow> regex" where
  "deriv icase bol c Nomatch = Nomatch"
| "deriv icase bol c Eps = Nomatch"
| "deriv icase bol c Bol = Nomatch"
| "deriv icase bol c (Lit a) = (if same_char icase a c then Eps else Nomatch)"
| "deriv icase bol c Dot = (if line_terminator c then Nomatch else Eps)"
| "deriv icase bol c AnyChar = Eps"
| "deriv icase bol c (Cls cs) = (if \<exists>a \<in> set cs. same_char icase a c then Eps else Nomatch)"
| "deriv icase bol c (NCls cs) = (if \<exists>a \<in> set cs. same_char icase a c then Nomatch else Eps)"
| "deriv icase bol c (Cat r s) =
     (if nullable bol r
      then Alt (Cat (deriv icase bol c r) s) (deriv icase bol c s)
      else Cat (deriv icase bol c r) s)"
| "deriv icase bol c (Alt r s) = Alt (deriv icase bol c r) (deriv icase bol c s)"
| "deriv icase bol c (Star r) = Cat (deriv icase bol c r) (Star r)"
| "deriv icase bol c (Plus r) = Cat (deriv icase bol c r) (Star r)"

fun match_from :: "bool \<Rightarrow> bool \<Rightarrow> regex \<Rightarrow> string \<Rightarrow> bool" where
  "match_from icase bol r [] = nullable bol r"
| "match_from icase bol r (c # cs) = match_from icase False (deriv icase bol c r) cs"

definition regex_match :: "bool \<Rightarrow> regex \<Rightarrow> string \<Rightarrow> bool" where
  "regex_match icase r s = match_from icase True r s"

fun word_rx :: "string \<Rightarrow> regex" where
  "word_rx [] = Eps"
| "word_rx [c] = Lit c"
| "word_rx (c # cs) = Cat (Lit c) (word_rx cs)"

section \<open>The tokenizer\<close>

text \<open>\<open>kCharTraitsTable\<close>, indexed by \<open>ch - 0x20\<close>, and the four masks.\<close>

definition kCharTraitsTable :: "8 word list" where
  "kCharTraitsTable = [
     14, 15, 14, 14, 14, 15, 15, 14, 15, 15, 15, 15, 15, 15, 15, 15,
     15, 15, 15, 15, 15, 15, 15, 15, 15, 15, 15, 10, 15, 15, 15, 15,
     15, 15, 15, 15, 15, 15, 15, 15, 15, 15, 15, 15, 15, 15, 15, 15,
     15, 15, 15, 15, 15, 15, 15, 15, 15, 15, 15, 14, 15, 14, 15, 14,
     15, 15, 15, 15, 15, 15, 15, 15, 15, 15, 15, 15, 15, 15, 15, 15,
     15, 15, 15, 15, 15, 15, 15, 15, 15, 15, 15, 15, 15, 15, 15, 0]"

definition kOrdinaryMask :: "8 word" where "kOrdinaryMask = 1"
definition kNonBlankMask :: "8 word" where "kNonBlankMask = 2"
definition kTextLeadMask :: "8 word" where "kTextLeadMask = 4"
definition kAnyPrintMask :: "8 word" where "kAnyPrintMask = 8"

definition is_white :: "int \<Rightarrow> bool" where
  "is_white ch = (isspace ch \<or> ch = 35)"

definition is_ordinary :: "int \<Rightarrow> bool" where
  "is_ordinary ch =
     (ch \<ge> 0x20 \<and> ch \<le> 0x7f \<and> (kCharTraitsTable ! nat (ch - 0x20)) AND kOrdinaryMask \<noteq> 0)"

definition is_non_blank :: "int \<Rightarrow> bool" where
  "is_non_blank ch =
     (ch > 0x20 \<and> ch \<le> 0x7f \<and> (kCharTraitsTable ! nat (ch - 0x20)) AND kNonBlankMask \<noteq> 0)"

definition is_text_lead :: "int \<Rightarrow> bool" where
  "is_text_lead ch =
     (ch \<ge> 0x20 \<and> ch \<le> 0x7f \<and> (kCharTraitsTable ! nat (ch - 0x20)) AND kTextLeadMask \<noteq> 0)"

definition is_any_print :: "int \<Rightarrow> bool" where
  "is_any_print ch =
     (ch = 9 \<or>
      (ch \<ge> 0x20 \<and> ch \<le> 0x7f \<and> (kCharTraitsTable ! nat (ch - 0x20)) AND kAnyPrintMask \<noteq> 0))"

text \<open>
  \<open>is_unquoted_string(const char *s)\<close>.  The argument is a C string, so it ends at its
  first NUL.  \<open>reservedRx\<close> is the pattern
  \<^verbatim>\<open>(^(?:data|save)|.*(?:loop|stop|global))_.+\<close> compiled with \<open>icase\<close>.
\<close>

definition c_str :: "string \<Rightarrow> string" where
  "c_str s = takeWhile (\<lambda>c. c \<noteq> CHR 0x00) s"

definition reservedRx :: regex where
  "reservedRx =
     Cat (Alt (Cat Bol (Alt (word_rx ''data'') (word_rx ''save'')))
              (Cat (Star Dot) (Alt (word_rx ''loop'') (Alt (word_rx ''stop'') (word_rx ''global'')))))
         (Cat (Lit CHR ''_'') (Plus Dot))"

fun all_non_blank :: "string \<Rightarrow> bool" where
  "all_non_blank [] = True"
| "all_non_blank (c # cs) = (if is_non_blank (schar c) then all_non_blank cs else False)"

definition is_unquoted_string :: "string \<Rightarrow> bool" where
  "is_unquoted_string s =
     (let ss = c_str s;
          result = (case ss of [] \<Rightarrow> is_ordinary 0
                    | c # cs \<Rightarrow> if is_ordinary (schar c) then all_non_blank cs else False)
      in if result then \<not> regex_match True reservedRx ss else result)"

text \<open>The token kinds and value types of \<open>sac_parser\<close>.\<close>

datatype CIFToken =
    CIFToken_Unknown
  | CIFToken_Eof
  | CIFToken_DATA
  | CIFToken_LOOP
  | CIFToken_GLOBAL
  | CIFToken_SAVE
  | CIFToken_STOP
  | CIFToken_Tag
  | CIFToken_Value

datatype CIFValue =
    CIFValue_Int
  | CIFValue_Float
  | CIFValue_Numeric
  | CIFValue_String
  | CIFValue_TextField
  | CIFValue_Inapplicable
  | CIFValue_Unknown

text \<open>
  \<open>enum State\<close>.  The scanner keeps its state in an \<open>int\<close> and computes with it
  (\<open>State::Float + 1\<close>), so the states are integers here as well.
\<close>

definition State_Start :: int where "State_Start = 0"
definition State_White :: int where "State_White = 1"
definition State_Comment :: int where "State_Comment = 2"
definition State_QuestionMark :: int where "State_QuestionMark = 3"
definition State_Dot :: int where "State_Dot = 4"
definition State_QuotedString :: int where "State_QuotedString = 5"
definition State_QuotedStringQuote :: int where "State_QuotedStringQuote = 6"
definition State_UnquotedString :: int where "State_UnquotedString = 7"
definition State_Tag :: int where "State_Tag = 8"
definition State_TextField :: int where "State_TextField = 9"
definition State_Float :: int where "State_Float = 100"
definition State_Int :: int where "State_Int = 110"
definition State_Value :: int where "State_Value = 300"
definition State_DATA :: int where "State_DATA = 301"
definition State_SAVE :: int where "State_SAVE = 302"

text \<open>
  The members of \<open>sac_parser\<close>: \<open>mData\<close> is what is left of the input stream, \<open>mBuffer\<close>
  the stack of pushed-back characters (top first).
\<close>

record sac_parser =
  mData :: string
  m_validate :: bool
  m_line_nr :: "32 word"
  m_bol :: bool
  m_lookahead :: CIFToken
  mTokenValue :: string
  mTokenType :: CIFValue
  mBuffer :: "int list"

text \<open>The parser together with the local variables of \<open>get_next_token\<close>.\<close>

record lexer = sac_parser +
  result :: CIFToken
  quoteChar :: int
  state :: int
  start :: int

text \<open>\<open>mData.get()\<close>: the next byte, or \<open>eof\<close> when the stream is exhausted.\<close>

definition stream_get :: "'a sac_parser_scheme \<Rightarrow> int \<times> 'a sac_parser_scheme" where
  "stream_get p =
     (case mData p of
        [] \<Rightarrow> (kEOF, p)
      | c # cs \<Rightarrow> (uchar c, p\<lparr>mData := cs\<rparr>))"

definition getNextChar :: "'a sac_parser_scheme \<Rightarrow> int \<times> 'a sac_parser_scheme" where
  "getNextChar p =
     (let (result, p1) =
            (case mBuffer p of
               [] \<Rightarrow> stream_get p
             | b # bs \<Rightarrow> (b, p\<lparr>mBuffer := bs\<rparr>));
          (result, p2) =
            (if result = 13 then
               (let (lookahead, p') = stream_get p1
                in (10, if lookahead \<noteq> 10 then p'\<lparr>mBuffer := lookahead # mBuffer p'\<rparr> else p'))
             else (result, p1));
          p3 = p2\<lparr>mTokenValue := mTokenValue p2 @ [to_char result]\<rparr>;
          p4 = (if result = 10 then p3\<lparr>m_line_nr := m_line_nr p3 + 1\<rparr> else p3)
      in (result, p4))"

text \<open>
  \<open>retract\<close> asserts that the token is not empty; every call follows a \<open>getNextChar\<close>,
  which has just appended a character.  On an empty token the model leaves the parser as
  it is.
\<close>

definition retract :: "'a sac_parser_scheme \<Rightarrow> 'a sac_parser_scheme" where
  "retract p =
     (if mTokenValue p = [] then p
      else
        (let ch = last (mTokenValue p);
             p1 = (if ch = CHR 0x0A then p\<lparr>m_line_nr := m_line_nr p - 1\<rparr> else p)
         in p1\<lparr>mBuffer := schar ch # mBuffer p1, mTokenValue := butlast (mTokenValue p1)\<rparr>))"

function retract_all :: "'a sac_parser_scheme \<Rightarrow> 'a sac_parser_scheme" where
  "retract_all p = (if mTokenValue p = [] then p else retract_all (retract p))"
  by pat_completeness auto
termination
  by (relation "measure (\<lambda>p. length (mTokenValue p))") (auto simp: retract_def Let_def)

declare retract_all.simps [simp del]

definition error_at :: "'a sac_parser_scheme \<Rightarrow> string \<Rightarrow> error" where
  "error_at p msg = Parse_error (m_line_nr p) msg"

definition restart :: "'a sac_parser_scheme \<Rightarrow> int \<Rightarrow> error + int \<times> 'a sac_parser_scheme" where
  "restart p start' =
     (let p1 = retract_all p in
      if start' = State_Start then Inr (State_Float, p1\<lparr>m_bol := False\<rparr>)
      else if start' = State_Float then Inr (State_Int, p1\<lparr>m_bol := False\<rparr>)
      else if start' = State_Int then Inr (State_Value, p1\<lparr>m_bol := False\<rparr>)
      else Inl (error_at p1 ''Invalid state in SacParser''))"

text \<open>\<open>state = start = restart(start)\<close>.\<close>

definition do_restart :: "lexer \<Rightarrow> error + lexer" where
  "do_restart s =
     (case restart s (start s) of
        Inl e \<Rightarrow> Inl e
      | Inr (r, s') \<Rightarrow> Inr (s'\<lparr>state := r, start := r\<rparr>))"

text \<open>
  \<open>std::string::substr(pos, n)\<close> for \<open>pos \<le> size\<close>; the count is a \<open>size_t\<close>, so a
  negative difference wraps around to a huge count and the rest of the string is taken.
\<close>

definition size_t_sub :: "nat \<Rightarrow> nat \<Rightarrow> nat" where
  "size_t_sub a b = (if b \<le> a then a - b else a + 2 ^ 64 - b)"

definition substr :: "string \<Rightarrow> nat \<Rightarrow> nat \<Rightarrow> string" where
  "substr s pos n = take n (drop pos s)"

text \<open>
  One iteration of the \<open>while (result == CIFToken::Unknown)\<close> loop of \<open>get_next_token\<close>,
  one definition for each \<open>case\<close> of the \<open>switch\<close>.  \<open>ch\<close> is the character
  \<open>getNextChar\<close> returned.  \<open>error(msg)\<close> throws, \<open>warning(msg)\<close> only prints.
\<close>

definition step_Start :: "int \<Rightarrow> lexer \<Rightarrow> error + lexer" where
  "step_Start ch s =
     (if ch = kEOF then Inr (s\<lparr>result := CIFToken_Eof\<rparr>)
      else if ch = 10 then Inr (s\<lparr>m_bol := True, state := State_White\<rparr>)
      else if ch = 32 \<or> ch = 9 then Inr (s\<lparr>state := State_White\<rparr>)
      else if ch = 35 then Inr (s\<lparr>state := State_Comment\<rparr>)
      else if ch = 95 then Inr (s\<lparr>state := State_Tag\<rparr>)
      else if ch = 59 \<and> m_bol s then Inr (s\<lparr>state := State_TextField\<rparr>)
      else if ch = 39 \<or> ch = 34 then Inr (s\<lparr>quoteChar := ch, state := State_QuotedString\<rparr>)
      else do_restart s)"

definition step_White :: "int \<Rightarrow> lexer \<Rightarrow> error + lexer" where
  "step_White ch s =
     (if ch = kEOF then Inr (s\<lparr>result := CIFToken_Eof\<rparr>)
      else if \<not> isspace ch then Inr ((retract (s\<lparr>state := State_Start\<rparr>))\<lparr>mTokenValue := []\<rparr>)
      else Inr (s\<lparr>m_bol := (ch = 10)\<rparr>))"

definition step_Comment :: "int \<Rightarrow> lexer \<Rightarrow> error + lexer" where
  "step_Comment ch s =
     (if ch = 10 then Inr (s\<lparr>state := State_Start, m_bol := True, mTokenValue := []\<rparr>)
      else if ch = kEOF then Inr (s\<lparr>result := CIFToken_Eof\<rparr>)
      else if \<not> is_any_print ch then Inl (error_at s ''invalid character in comment'')
      else Inr s)"

definition step_TextField :: "int \<Rightarrow> lexer \<Rightarrow> error + lexer" where
  "step_TextField ch s =
     (if ch = 10 then Inr (s\<lparr>state := State_TextField + 1\<rparr>)
      else if ch = kEOF then Inl (error_at s ''unterminated textfield'')
      else Inr s)"

definition step_TextField1 :: "int \<Rightarrow> lexer \<Rightarrow> error + lexer" where
  "step_TextField1 ch s =
     (if is_text_lead ch \<or> ch = 32 \<or> ch = 9 then Inr (s\<lparr>state := State_TextField\<rparr>)
      else if ch = 59 then
        Inr (s\<lparr>mTokenValue := substr (mTokenValue s) 1 (size_t_sub (length (mTokenValue s)) 3),
               mTokenType := CIFValue_TextField,
               result := CIFToken_Value\<rparr>)
      else if ch = kEOF then Inl (error_at s ''unterminated textfield'')
      else if ch \<noteq> 10 then Inl (error_at s ''invalid character in text field'')
      else Inr s)"

definition step_QuotedString :: "int \<Rightarrow> lexer \<Rightarrow> error + lexer" where
  "step_QuotedString ch s =
     (if ch = kEOF then Inl (error_at s ''unterminated quoted string'')
      else if ch = quoteChar s then Inr (s\<lparr>state := State_QuotedStringQuote\<rparr>)
      else Inr s)"

definition step_QuotedStringQuote :: "int \<Rightarrow> lexer \<Rightarrow> error + lexer" where
  "step_QuotedStringQuote ch s =
     (if is_white ch then
        (let s1 = (retract s)\<lparr>result := CIFToken_Value, mTokenType := CIFValue_String\<rparr> in
         if length (mTokenValue s1) < 2 then Inl (error_at s1 ''Invalid quoted string token'')
         else Inr (s1\<lparr>mTokenValue :=
                       substr (mTokenValue s1) 1 (size_t_sub (length (mTokenValue s1)) 2)\<rparr>))
      else if ch = quoteChar s then Inr s
      else if is_any_print ch then Inr (s\<lparr>state := State_QuotedString\<rparr>)
      else if ch = kEOF then Inl (error_at s ''unterminated quoted string'')
      else Inl (error_at s ''invalid character in quoted string''))"

definition step_Tag :: "int \<Rightarrow> lexer \<Rightarrow> error + lexer" where
  "step_Tag ch s =
     (if \<not> is_non_blank ch then Inr ((retract s)\<lparr>result := CIFToken_Tag\<rparr>)
      else Inr s)"

definition finish_value :: "CIFValue \<Rightarrow> lexer \<Rightarrow> lexer" where
  "finish_value t s = (retract s)\<lparr>result := CIFToken_Value, mTokenType := t\<rparr>"

definition step_Float :: "int \<Rightarrow> lexer \<Rightarrow> error + lexer" where
  "step_Float ch s =
     (if ch = 43 \<or> ch = 45 then Inr (s\<lparr>state := State_Float + 1\<rparr>)
      else if isdigit ch then Inr (s\<lparr>state := State_Float + 1\<rparr>)
      else do_restart s)"

definition step_Float1 :: "int \<Rightarrow> lexer \<Rightarrow> error + lexer" where
  "step_Float1 ch s =
     (if ch = 46 then Inr (s\<lparr>state := State_Float + 2\<rparr>)
      else if tolower ch = 101 then Inr (s\<lparr>state := State_Float + 3\<rparr>)
      else if is_white ch \<or> ch = kEOF then Inr (finish_value CIFValue_Int s)
      else do_restart s)"

definition step_Float2 :: "int \<Rightarrow> lexer \<Rightarrow> error + lexer" where
  "step_Float2 ch s =
     (if tolower ch = 101 then Inr (s\<lparr>state := State_Float + 3\<rparr>)
      else if is_white ch \<or> ch = kEOF then Inr (finish_value CIFValue_Float s)
      else do_restart s)"

definition step_Float3 :: "int \<Rightarrow> lexer \<Rightarrow> error + lexer" where
  "step_Float3 ch s =
     (if ch = 45 \<or> ch = 43 then Inr (s\<lparr>state := State_Float + 4\<rparr>)
      else if isdigit ch then Inr (s\<lparr>state := State_Float + 5\<rparr>)
      else do_restart s)"

definition step_Float4 :: "int \<Rightarrow> lexer \<Rightarrow> error + lexer" where
  "step_Float4 ch s =
     (if isdigit ch then Inr (s\<lparr>state := State_Float + 5\<rparr>)
      else do_restart s)"

definition step_Float5 :: "int \<Rightarrow> lexer \<Rightarrow> error + lexer" where
  "step_Float5 ch s =
     (if is_white ch \<or> ch = kEOF then Inr (finish_value CIFValue_Float s)
      else do_restart s)"

definition step_Int :: "int \<Rightarrow> lexer \<Rightarrow> error + lexer" where
  "step_Int ch s =
     (if isdigit ch \<or> ch = 43 \<or> ch = 45 then Inr (s\<lparr>state := State_Int + 1\<rparr>)
      else do_restart s)"

definition step_Int1 :: "int \<Rightarrow> lexer \<Rightarrow> error + lexer" where
  "step_Int1 ch s =
     (if is_white ch \<or> ch = kEOF then Inr (finish_value CIFValue_Int s)
      else do_restart s)"

text \<open>
  \<open>case State::Value\<close>.  The first \<open>if\<close> looks for a reserved word when an underscore
  arrives; \<open>data_\<close> and \<open>save_\<close> leave the \<open>case\<close> with \<open>continue\<close>.  The second \<open>if\<close>
  completes the lexeme at the first character that is not non-blank.
\<close>

definition value_completed :: "lexer \<Rightarrow> lexer" where
  "value_completed s =
     (let s1 = (retract s)\<lparr>result := CIFToken_Value\<rparr> in
      if mTokenValue s1 = ''.'' then s1\<lparr>mTokenType := CIFValue_Inapplicable\<rparr>
      else if mTokenValue s1 = ''?'' then s1\<lparr>mTokenType := CIFValue_Unknown, mTokenValue := []\<rparr>
      else s1)"

definition step_Value_tail :: "int \<Rightarrow> lexer \<Rightarrow> error + lexer" where
  "step_Value_tail ch s =
     (if result s = CIFToken_Unknown \<and> \<not> is_non_blank ch then Inr (value_completed s)
      else Inr s)"

definition step_Value :: "int \<Rightarrow> lexer \<Rightarrow> error + lexer" where
  "step_Value ch s =
     (if ch = 95 then
        (let s' = toLowerCopy (mTokenValue s) in
         if s' = ''global_'' then step_Value_tail ch (s\<lparr>result := CIFToken_GLOBAL\<rparr>)
         else if s' = ''stop_'' then step_Value_tail ch (s\<lparr>result := CIFToken_STOP\<rparr>)
         else if s' = ''loop_'' then step_Value_tail ch (s\<lparr>result := CIFToken_LOOP\<rparr>)
         else if s' = ''data_'' then Inr (s\<lparr>state := State_DATA\<rparr>)
         else if s' = ''save_'' then Inr (s\<lparr>state := State_SAVE\<rparr>)
         else step_Value_tail ch s)
      else step_Value_tail ch s)"

definition step_DATA_SAVE :: "int \<Rightarrow> lexer \<Rightarrow> error + lexer" where
  "step_DATA_SAVE ch s =
     (if \<not> is_non_blank ch then
        (let s1 = retract s;
             s2 = (if state s1 = State_DATA then s1\<lparr>result := CIFToken_DATA\<rparr>
                   else s1\<lparr>result := CIFToken_SAVE\<rparr>)
         in Inr (s2\<lparr>mTokenValue := drop 5 (mTokenValue s2)\<rparr>))
      else Inr s)"

definition step :: "lexer \<Rightarrow> error + lexer" where
  "step s0 =
     (let (ch, s) = getNextChar s0 in
      if state s = State_Start then step_Start ch s
      else if state s = State_White then step_White ch s
      else if state s = State_Comment then step_Comment ch s
      else if state s = State_TextField then step_TextField ch s
      else if state s = State_TextField + 1 then step_TextField1 ch s
      else if state s = State_QuotedString then step_QuotedString ch s
      else if state s = State_QuotedStringQuote then step_QuotedStringQuote ch s
      else if state s = State_Tag then step_Tag ch s
      else if state s = State_Float then step_Float ch s
      else if state s = State_Float + 1 then step_Float1 ch s
      else if state s = State_Float + 2 then step_Float2 ch s
      else if state s = State_Float + 3 then step_Float3 ch s
      else if state s = State_Float + 4 then step_Float4 ch s
      else if state s = State_Float + 5 then step_Float5 ch s
      else if state s = State_Int then step_Int ch s
      else if state s = State_Int + 1 then step_Int1 ch s
      else if state s = State_Value then step_Value ch s
      else if state s = State_DATA \<or> state s = State_SAVE then step_DATA_SAVE ch s
      else Inl (error_at s ''Invalid state in get_next_token''))"

text \<open>
  The loop of \<open>get_next_token\<close>.  Nothing in the source bounds the number of iterations,
  so the loop is a partial function: \<open>None\<close> stands for a scan that never returns,
  \<open>Some (Inl e)\<close> for a thrown \<open>parse_error\<close>, \<open>Some (Inr s)\<close> for a return with token
  \<open>result s\<close>.
\<close>

partial_function (option) token_loop :: "lexer \<Rightarrow> (error + lexer) option" where
  "token_loop s =
     (if result s \<noteq> CIFToken_Unknown then Some (Inr s)
      else case step s of
             Inl e \<Rightarrow> Some (Inl e)
           | Inr s' \<Rightarrow> token_loop s')"

declare token_loop.simps [code]

text \<open>The initialisation at the head of \<open>get_next_token\<close>, then the loop.\<close>

definition start_token :: "sac_parser \<Rightarrow> lexer" where
  "start_token p =
     sac_parser.extend
       (p\<lparr>m_bol := False, mTokenValue := [], mTokenType := CIFValue_Unknown\<rparr>)
       (lexer.fields CIFToken_Unknown 0 State_Start State_Start)"

definition get_next_token :: "sac_parser \<Rightarrow> (error + lexer) option" where
  "get_next_token p = token_loop (start_token p)"

text \<open>
  The bodies of quoted strings that the scanner reads to their end without raising an
  error and without closing early: no carriage return (it would be rewritten to a line
  feed), and after each occurrence of the quote character \<open>q\<close> inside the body either
  another quote or a printable character for which \<open>is_white\<close> is false.
  \<open>after_quote\<close> tells whether the previous character was the quote.
\<close>

fun quoted_body :: "char \<Rightarrow> bool \<Rightarrow> string \<Rightarrow> bool" where
  "quoted_body q after_quote [] = True"
| "quoted_body q after_quote (x # xs) =
     (x \<noteq> CHR 0x0D
      \<and> (after_quote \<longrightarrow> x = q \<or> (is_any_print (uchar x) \<and> \<not> is_white (uchar x)))
      \<and> quoted_body q (x = q) xs)"

text \<open>The constructor \<open>sac_parser(std::istream &is)\<close> before it reads the first token.\<close>

definition sac_parser_init :: "string \<Rightarrow> sac_parser" where
  "sac_parser_init input =
     \<lparr> mData = input, m_validate = True, m_line_nr = 1, m_bol = True,
       m_lookahead = CIFToken_Unknown, mTokenValue = [], mTokenType = CIFValue_Unknown,
       mBuffer = [] \<rparr>"

text \<open>
  What the scanner will read next: the characters pushed back by \<open>retract\<close> (the last one
  pushed is the first one read), then the rest of the input \<open>mData\<close>.
\<close>

definition pending :: "'a sac_parser_scheme \<Rightarrow> int list" where
  "pending p = mBuffer p @ map uchar (mData p)"

text \<open>
  An unquoted lexeme ends at the end of the input or before a character that is not
  non-blank (white space or a control character).  The bounds are those of a character of
  the input or of one pushed back.
\<close>

definition lexeme_end :: "int list \<Rightarrow> bool" where
  "lexeme_end tail \<longleftrightarrow> tail = [] \<or> (\<not> is_non_blank (hd tail) \<and> - 128 \<le> hd tail \<and> hd tail \<le> 255)"

section \<open>The validator\<close>

text \<open>
  The classes of \<open>validate.cpp\<close>.  Their declarations (\<open>validate.hpp\<close>) are not part of the
  sources; the fields are those the member functions use.  A compiled \<open>m_rx\<close> is a
  \<open>regex\<close>; the type patterns are compiled with \<open>regex::extended\<close>, without \<open>icase\<close>.
\<close>

datatype DDL_PrimitiveType = Char | UChar | Numb

record type_validator =
  tv_name :: string
  m_primitive_type :: DDL_PrimitiveType
  m_rx :: regex

record item_validator =
  m_tag :: string
  m_mandatory :: bool
  m_type :: "type_validator option"
  m_enums :: "string list"
  m_category :: string

record category_validator =
  cv_name :: string
  m_keys :: "string list"
  m_item_validators :: "item_validator list"

record link_validator =
  m_link_group_id :: int
  m_parent_category :: string
  m_parent_keys :: "string list"
  m_child_category :: string
  m_child_keys :: "string list"

record validator =
  m_strict :: bool
  m_category_validators :: "category_validator list"
  m_link_validators :: "link_validator list"

text \<open>
  \<open>type_validator::type_validator\<close>: an empty pattern is replaced by \<open>.+\<close>.  \<open>compile\<close> is
  the regex compiler of the C++ library.  The pattern is compiled with \<open>regex::extended\<close>;
  the dot of that grammar matches every character except the character with code 0, line
  terminators included, hence the bracket expression \<open>NCls [CHR 0x00]\<close>.
\<close>

definition new_type_validator ::
    "(string \<Rightarrow> regex) \<Rightarrow> string \<Rightarrow> DDL_PrimitiveType \<Rightarrow> string \<Rightarrow> type_validator" where
  "new_type_validator compile name type rx =
     \<lparr> tv_name = name, m_primitive_type = type,
       m_rx = (if rx = [] then Plus (NCls [CHR 0x00]) else compile rx) \<rparr>"

text \<open>
  \<open>validation_error(cat, item, msg)\<close> and the messages of \<open>item_validator::operator()\<close>.
\<close>

definition validation_error3 :: "string \<Rightarrow> string \<Rightarrow> string \<Rightarrow> error" where
  "validation_error3 cat item msg = Validation_error (''When validating _'' @ cat @ ''.'' @ item @ '': '' @ msg)"

definition is_uchar_item :: "item_validator \<Rightarrow> bool" where
  "is_uchar_item iv = (case m_type iv of None \<Rightarrow> False | Some t \<Rightarrow> m_primitive_type t = UChar)"

text \<open>
  Modelled from the spec: \<open>m_enums.count(value)\<close>.  The container type of \<open>m_enums\<close> and
  its comparison are declared in \<open>validate.hpp\<close>, which is missing; the spec says that a
  value is looked up in the enumeration "case-folded under \<open>UChar\<close>".
\<close>

definition m_enums_count :: "item_validator \<Rightarrow> string \<Rightarrow> nat" where
  "m_enums_count iv v =
     (if is_uchar_item iv
      then (if \<exists>e \<in> set (m_enums iv). toLowerCopy e = toLowerCopy v then 1 else 0)
      else (if v \<in> set (m_enums iv) then 1 else 0))"

text \<open>\<open>item_validator::operator()(std::string_view value)\<close>.\<close>

definition item_validator_apply :: "item_validator \<Rightarrow> string \<Rightarrow> error + unit" where
  "item_validator_apply iv v =
     (if v \<noteq> [] \<and> v \<noteq> ''?'' \<and> v \<noteq> ''.'' then
        (if (case m_type iv of None \<Rightarrow> False | Some t \<Rightarrow> \<not> regex_match False (m_rx t) v) then
           Inl (validation_error3 (m_category iv) (m_tag iv)
                  (''Value '' @ [CHR 0x27] @ v @ [CHR 0x27]
                   @ '' does not match type expression for type ''
                   @ (case m_type iv of None \<Rightarrow> [] | Some t \<Rightarrow> tv_name t)))
         else if m_enums iv \<noteq> [] \<and> m_enums_count iv v = 0 then
           Inl (validation_error3 (m_category iv) (m_tag iv)
                  (''Value '' @ [CHR 0x27] @ v @ [CHR 0x27] @ '' is not in the list of allowed values''))
         else Inr ())
      else Inr ())"

text \<open>
  \<open>category_validator::get_validator_for_item\<close> and
  \<open>validator::get_validator_for_category\<close> search a \<open>std::set\<close> whose ordering is declared in
  the missing header.  Modelled from the spec: names are compared without regard to case.
\<close>

definition get_validator_for_item :: "category_validator \<Rightarrow> string \<Rightarrow> item_validator option" where
  "get_validator_for_item cv tag = find (\<lambda>iv. iequals (m_tag iv) tag) (m_item_validators cv)"

definition get_validator_for_category :: "validator \<Rightarrow> string \<Rightarrow> category_validator option" where
  "get_validator_for_category v cat = find (\<lambda>cv. iequals (cv_name cv) cat) (m_category_validators v)"

text \<open>\<open>validator::report_error(msg, fatal)\<close>: throws in strict mode, prints otherwise.\<close>

definition report_error :: "validator \<Rightarrow> string \<Rightarrow> bool \<Rightarrow> error + unit" where
  "report_error v msg fatal = (if m_strict v \<or> fatal then Inl (Validation_error msg) else Inr ())"

section \<open>Categories\<close>

text \<open>
  \<open>class category\<close>: the column table, the two validator pointers and the rows, a singly
  linked list from \<open>m_head\<close> to \<open>m_tail\<close>.  A row is the list of its cells in the order
  \<open>row::append\<close> linked them; in the list of the category it stands with its address,
  the handle by which the rest of the library refers to it.
\<close>

record item =
  item_name :: string
  item_value_text :: string

record item_column =
  col_name :: string
  col_validator :: "item_validator option"

type_synonym row = "item_value list"

record category =
  cat_name :: string
  m_columns :: "item_column list"
  m_validator :: "validator option"
  m_cat_validator :: "category_validator option"
  m_rows :: "(nat \<times> row) list"

text \<open>
  \<open>get_column_ix\<close>.  The loop counter is a \<open>uint16_t\<close>: it finds the first column whose
  name matches, or stops at \<open>m_columns.size()\<close>.  When neither happens below 65536 the
  counter wraps around to 0 and the loop never ends: the result is \<open>None\<close>.
\<close>

definition get_column_ix :: "category \<Rightarrow> string \<Rightarrow> nat option" where
  "get_column_ix c column_name =
     (let result = length (takeWhile (\<lambda>col. \<not> iequals column_name (col_name col)) (m_columns c))
      in if result \<le> 65535 then Some result else None)"

text \<open>
  A function of the category that changes it and may throw returns the outcome together
  with the category as the call leaves it; \<open>None\<close> is a call that does not return.
\<close>

type_synonym 'a outcome = "((error + 'a) \<times> category) option"

definition add_column :: "category \<Rightarrow> string \<Rightarrow> (16 word) outcome" where
  "add_column c column_name =
     (case get_column_ix c column_name of
        None \<Rightarrow> None
      | Some res \<Rightarrow>
          if res = length (m_columns c) then
            (case m_cat_validator c of
               None \<Rightarrow>
                 Some (Inr (of_nat res),
                       c\<lparr>m_columns := m_columns c @ [\<lparr>col_name = column_name, col_validator = None\<rparr>]\<rparr>)
             | Some cv \<Rightarrow>
                 (case get_validator_for_item cv column_name of
                    Some iv \<Rightarrow>
                      Some (Inr (of_nat res),
                            c\<lparr>m_columns := m_columns c @ [\<lparr>col_name = column_name, col_validator = Some iv\<rparr>]\<rparr>)
                  | None \<Rightarrow>
                      (case m_validator c of
                         None \<Rightarrow> Some (Inl Null_pointer, c)
                       | Some v \<Rightarrow>
                           (case report_error v (''tag '' @ column_name @ '' not allowed in category '' @ cat_name c) False of
                              Inl e \<Rightarrow> Some (Inl e, c)
                            | Inr _ \<Rightarrow>
                                Some (Inr (of_nat res),
                                      c\<lparr>m_columns := m_columns c @ [\<lparr>col_name = column_name, col_validator = None\<rparr>]\<rparr>)))))
          else Some (Inr (of_nat res), c))"

text \<open>\<open>create_item(const item &i)\<close>: look the column up or add it, then build the cell.\<close>

definition create_item_for :: "category \<Rightarrow> item \<Rightarrow> item_value outcome" where
  "create_item_for c i =
     (case add_column c (item_name i) of
        None \<Rightarrow> None
      | Some (Inl e, c') \<Rightarrow> Some (Inl e, c')
      | Some (Inr ix, c') \<Rightarrow>
          (case create_item ix (item_value_text i) of
             Inl e \<Rightarrow> Some (Inl e, c')
           | Inr iv \<Rightarrow> Some (Inr iv, c')))"

text \<open>
  The loop of \<open>emplace(ItemIter b, ItemIter e)\<close>.  When \<open>create_item\<close> throws, the
  \<open>catch\<close> block deletes the row under construction and rethrows; the category keeps
  the columns added so far.
\<close>

fun emplace_items :: "category \<Rightarrow> row \<Rightarrow> item list \<Rightarrow> row outcome" where
  "emplace_items c r [] = Some (Inr r, c)"
| "emplace_items c r (i # rest) =
     (case create_item_for c i of
        None \<Rightarrow> None
      | Some (Inl e, c') \<Rightarrow> Some (Inl e, c')
      | Some (Inr new_item, c') \<Rightarrow> emplace_items c' (r @ [new_item]) rest)"

text \<open>The text of the cell of a row in a column; a row without such a cell reads as empty.\<close>

definition row_text :: "row \<Rightarrow> nat \<Rightarrow> string" where
  "row_text r ix =
     (case find (\<lambda>iv. unat (m_column_ix iv) = ix) r of
        None \<Rightarrow> []
      | Some iv \<Rightarrow> text_of iv)"

definition column_is_uchar :: "category \<Rightarrow> nat \<Rightarrow> bool" where
  "column_is_uchar c ix =
     (ix < length (m_columns c) \<and>
      (case col_validator (m_columns c ! ix) of None \<Rightarrow> False | Some iv \<Rightarrow> is_uchar_item iv))"

text \<open>
  Modelled from the spec: \<open>category::insert_impl\<close> is declared in \<open>category.hpp\<close> but its
  body is not part of the sources.  The spec says of \<open>emplace\<close>: "Inserts at the tail; if a
  primary key is configured, reject (\<open>DuplicateKey\<close>) when another row already has the same
  key under \<open>UChar\<close>-aware compare.  [...] each value is validated before the row becomes
  observable", and of the key: "the primary-key tuple is unique across rows after
  case-aware normalization of \<open>UChar\<close>-typed keys (lower-case compare)".
\<close>

definition key_indices :: "category \<Rightarrow> nat list" where
  "key_indices c =
     (case m_cat_validator c of
        None \<Rightarrow> []
      | Some cv \<Rightarrow>
          map (\<lambda>k. length (takeWhile (\<lambda>col. \<not> iequals k (col_name col)) (m_columns c))) (m_keys cv))"

definition key_tuple :: "category \<Rightarrow> row \<Rightarrow> string list" where
  "key_tuple c r =
     map (\<lambda>ix. if column_is_uchar c ix then toLowerCopy (row_text r ix) else row_text r ix)
         (key_indices c)"

fun validate_cells :: "category \<Rightarrow> row \<Rightarrow> error + unit" where
  "validate_cells c [] = Inr ()"
| "validate_cells c (iv # rest) =
     (let ix = unat (m_column_ix iv) in
      case (if ix < length (m_columns c) then col_validator (m_columns c ! ix) else None) of
        None \<Rightarrow> validate_cells c rest
      | Some v \<Rightarrow>
          (case item_validator_apply v (text_of iv) of
             Inl e \<Rightarrow> Inl e
           | Inr _ \<Rightarrow> validate_cells c rest))"

definition fresh_handle :: "(nat \<times> row) list \<Rightarrow> nat" where
  "fresh_handle rows = Suc (fold max (map fst rows) 0)"

definition insert_impl :: "category \<Rightarrow> row \<Rightarrow> (error + nat) \<times> category" where
  "insert_impl c n =
     (case validate_cells c n of
        Inl e \<Rightarrow> (Inl e, c)
      | Inr _ \<Rightarrow>
          if key_indices c \<noteq> [] \<and> (\<exists>r \<in> set (map snd (m_rows c)). key_tuple c r = key_tuple c n)
          then (Inl (Duplicate_key (cat_name c)), c)
          else (Inr (length (m_rows c)), c\<lparr>m_rows := m_rows c @ [(fresh_handle (m_rows c), n)]\<rparr>))"

text \<open>
  \<open>emplace(ItemIter b, ItemIter e)\<close>; the iterator it returns is the position of the new
  row in the list.
\<close>

definition emplace :: "category \<Rightarrow> item list \<Rightarrow> nat outcome" where
  "emplace c items =
     (case emplace_items c [] items of
        None \<Rightarrow> None
      | Some (Inl e, c') \<Rightarrow> Some (Inl e, c')
      | Some (Inr r, c') \<Rightarrow> Some (insert_impl c' r))"

text \<open>
  A cell as \<open>create_item\<close> stores it: the length field is the length of the text, the
  text with its terminating NUL is in the inline buffer when it is shorter than
  \<open>kBufferSize\<close> and in a heap buffer otherwise.
\<close>

definition cell_ok :: "item_value \<Rightarrow> bool" where
  "cell_ok iv \<longleftrightarrow>
     m_payload iv = (if unat (m_length iv) < kBufferSize
                     then Local_data (text_of iv @ [CHR 0x00])
                     else Heap_data (text_of iv @ [CHR 0x00]))
     \<and> length (text_of iv) = unat (m_length iv)"

text \<open>
  What a failed call may change: \<open>same_but_columns c c'\<close> holds when \<open>c'\<close> has the rows,
  the name and the validators of \<open>c\<close>, and the columns of \<open>c\<close> followed by further columns.
\<close>

definition same_but_columns :: "category \<Rightarrow> category \<Rightarrow> bool" where
  "same_but_columns c c' \<longleftrightarrow>
     m_rows c' = m_rows c \<and> cat_name c' = cat_name c \<and> m_validator c' = m_validator c
     \<and> m_cat_validator c' = m_cat_validator c \<and> (\<exists>added. m_columns c' = m_columns c @ added)"

section \<open>Data blocks\<close>

text \<open>
  \<open>class datablock\<close> is a list of categories with a name and a validator.
\<close>

record datablock =
  db_name :: string
  db_validator :: "validator option"
  categories :: "category list"

text \<open>
  Modelled from the spec: \<open>category::set_validator\<close> is not part of the sources.  It
  stores the validator and looks the category validator up by the name of the category
  ("Setting a validator on a file cascades to all data blocks which cascade to all
  categories").
\<close>

definition set_validator :: "validator option \<Rightarrow> category \<Rightarrow> category" where
  "set_validator v c =
     c\<lparr>m_validator := v,
       m_cat_validator := (case v of None \<Rightarrow> None | Some v' \<Rightarrow> get_validator_for_category v' (cat_name c))\<rparr>"

definition new_category :: "string \<Rightarrow> category" where
  "new_category name =
     \<lparr> cat_name = name, m_columns = [], m_validator = None, m_cat_validator = None, m_rows = [] \<rparr>"

text \<open>
  \<open>datablock::emplace(name)\<close>.  The loop looks for the first category with that name;
  when it is found and is not the first of the list, \<open>splice\<close> moves it to the front.
  The result is the iterator \<open>begin()\<close> and \<open>is_new\<close>.
\<close>

definition datablock_emplace :: "datablock \<Rightarrow> string \<Rightarrow> bool \<times> datablock" where
  "datablock_emplace db name =
     (let i = length (takeWhile (\<lambda>c. \<not> iequals name (cat_name c)) (categories db)) in
      if i < length (categories db) then
        (False,
         if i \<noteq> 0
         then db\<lparr>categories := (categories db ! i) # take i (categories db) @ drop (Suc i) (categories db)\<rparr>
         else db)
      else
        (True, db\<lparr>categories := set_validator (db_validator db) (new_category name) # categories db\<rparr>))"

text \<open>
  \<open>datablock::operator[](name)\<close>: the category of that name, appended at the back when
  there is none.  The result is the position of the category and the data block.
\<close>

definition datablock_index :: "datablock \<Rightarrow> string \<Rightarrow> nat \<times> datablock" where
  "datablock_index db name =
     (let i = length (takeWhile (\<lambda>c. \<not> iequals (cat_name c) name) (categories db)) in
      if i < length (categories db) then (i, db)
      else
        (length (categories db),
         db\<lparr>categories := categories db @
               [case db_validator db of
                  None \<Rightarrow> new_category name
                | Some v \<Rightarrow> set_validator (Some v) (new_category name)]\<rparr>))"

section \<open>The update propagator\<close>

text \<open>
  \<open>category::update_value\<close>, \<open>category::erase\<close> and \<open>category::is_orphan\<close> are declared
  in \<open>category.hpp\<close>; their bodies are not part of the sources, nor is the code that fills
  \<open>m_parent_links\<close> and \<open>m_child_links\<close>.  What the sources do contain is taken from them:
  \<open>item_handle::empty\<close>, the link lookups of the validator, \<open>datablock::get\<close> and
  \<open>category::clone_row\<close>.  The rest of this section is modelled from section 4.I of the
  spec, as said at each definition.

  \<open>item_handle::empty()\<close>: the text is empty, or \<open>.\<close>, or \<open>?\<close>.
\<close>

definition is_empty_text :: "string \<Rightarrow> bool" where
  "is_empty_text txt \<longleftrightarrow> txt = [] \<or> (length txt = 1 \<and> (hd txt = CHR ''.'' \<or> hd txt = CHR ''?''))"

text \<open>
  \<open>validator::get_links_for_parent\<close> and \<open>validator::get_links_for_child\<close> compare the
  category names with \<open>==\<close>.
\<close>

definition get_links_for_parent :: "validator \<Rightarrow> string \<Rightarrow> link_validator list" where
  "get_links_for_parent v cat = filter (\<lambda>l. m_parent_category l = cat) (m_link_validators v)"

definition get_links_for_child :: "validator \<Rightarrow> string \<Rightarrow> link_validator list" where
  "get_links_for_child v cat = filter (\<lambda>l. m_child_category l = cat) (m_link_validators v)"

text \<open>
  \<open>datablock::get(name)\<close>: the first category whose name is \<open>name\<close> up to case, here its
  position in the list; \<open>None\<close> is the null pointer.
\<close>

definition datablock_get :: "datablock \<Rightarrow> string \<Rightarrow> nat option" where
  "datablock_get db name =
     (let i = length (takeWhile (\<lambda>c. \<not> iequals (cat_name c) name) (categories db))
      in if i < length (categories db) then Some i else None)"

text \<open>
  \<open>category::clone_row\<close>: a new row with, for every cell of the row, a cell made by
  \<open>create_item\<close> from the column and the text of that cell; an exception of \<open>create_item\<close>
  deletes the new row and is thrown again.
\<close>

fun clone_row :: "row \<Rightarrow> error + row" where
  "clone_row [] = Inr []"
| "clone_row (i # rest) =
     (case create_item (m_column_ix i) (text_of i) of
        Inl e \<Rightarrow> Inl e
      | Inr v \<Rightarrow> (case clone_row rest of Inl e \<Rightarrow> Inl e | Inr r \<Rightarrow> Inr (v # r)))"

text \<open>
  The cascade works on a store, a data block.  A step of it returns the store it has
  made, or the error that stopped it; \<open>None\<close> is a cascade that does not return.  A row is
  named by the position of its category in the data block and its handle.
\<close>

type_synonym 'a res = "(error + 'a) option"

text \<open>
  The position of a column by name, as \<open>get_column_ix\<close> finds it (without the bound of
  16 bits); the text of a row in a named column (empty when the row has no such cell); the
  join tuple of a row for a list of key names.
\<close>

definition col_index :: "category \<Rightarrow> string \<Rightarrow> nat" where
  "col_index c name = length (takeWhile (\<lambda>col. \<not> iequals name (col_name col)) (m_columns c))"

definition field_text :: "category \<Rightarrow> row \<Rightarrow> string \<Rightarrow> string" where
  "field_text c r name = row_text r (col_index c name)"

definition join_tuple :: "category \<Rightarrow> row \<Rightarrow> string list \<Rightarrow> string list" where
  "join_tuple c r names = map (field_text c r) names"

text \<open>
  Modelled from the spec: \<open>m_child_links\<close> and \<open>m_parent_links\<close> of a category (a list of
  pairs of a linked category and a link validator) are filled by code that is not part of
  the sources.  The spec, of a category: "link group lists (parent-side and child-side)
  resolved against sibling categories within the same block".  Here they are computed
  from the validator of the category and the data block: the links of the validator in
  which the category is the parent (the child), each with the position of the other
  category when the data block has it.
\<close>

definition child_links :: "datablock \<Rightarrow> category \<Rightarrow> (nat \<times> link_validator) list" where
  "child_links db c =
     (case m_validator c of
        None \<Rightarrow> []
      | Some v \<Rightarrow>
          List.map_filter (\<lambda>l. map_option (\<lambda>i. (i, l)) (datablock_get db (m_child_category l)))
            (get_links_for_parent v (cat_name c)))"

definition parent_links :: "datablock \<Rightarrow> category \<Rightarrow> (nat \<times> link_validator) list" where
  "parent_links db c =
     (case m_validator c of
        None \<Rightarrow> []
      | Some v \<Rightarrow>
          List.map_filter (\<lambda>l. map_option (\<lambda>i. (i, l)) (datablock_get db (m_parent_category l)))
            (get_links_for_child v (cat_name c)))"

text \<open>
  Modelled from the spec: \<open>category::is_orphan\<close> is not part of the sources.  The spec, of
  a child row \<open>ch\<close>: "check whether \<open>ch\<close> has other link groups \<open>G'\<close> (different
  \<open>link_group_id\<close>) into the same or another parent category that currently resolve to some
  live parent".  A link resolves to a live parent when a row of the parent category has,
  in the parent keys, the join tuple that the child row has in the child keys.  \<open>skip\<close>
  names a parent row that does not count.  While a parent row is updated it is that row:
  in the spec's fourth scenario and in test \<open>d5\<close> three link groups lead from the child to
  the one parent row that is renamed, and the child must not be split ("must leave exactly
  one child with \<open>(10,10,10)\<close>"), so the links that resolve to the renamed row itself are
  not "other" parents.  While a row is erased it is already gone and \<open>skip\<close> is \<open>None\<close>.
\<close>

definition has_live_parent ::
    "datablock \<Rightarrow> category \<Rightarrow> row \<Rightarrow> (nat \<times> nat) option \<Rightarrow> nat \<times> link_validator \<Rightarrow> bool" where
  "has_live_parent db c r skip pl =
     (case pl of (pc, l) \<Rightarrow>
        \<exists>(h, p) \<in> set (m_rows (categories db ! pc)).
           Some (pc, h) \<noteq> skip
           \<and> join_tuple (categories db ! pc) p (m_parent_keys l) = join_tuple c r (m_child_keys l))"

definition other_parent ::
    "datablock \<Rightarrow> category \<Rightarrow> row \<Rightarrow> link_validator \<Rightarrow> (nat \<times> nat) option \<Rightarrow> bool" where
  "other_parent db c r G skip =
     (\<exists>pl \<in> set (parent_links db c).
         m_link_group_id (snd pl) \<noteq> m_link_group_id G \<and> has_live_parent db c r skip pl)"

text \<open>
  Writing to the store.  \<open>put_cell\<close> replaces the cell of a row in the column of the new
  cell, or appends the new cell; \<open>set_row\<close> changes the row with a handle; \<open>insert_after\<close>
  puts a row right after the row with a handle; \<open>put_category\<close> and \<open>with_rows\<close> replace a
  category of the data block and its rows.
\<close>

definition put_cell :: "item_value \<Rightarrow> row \<Rightarrow> row" where
  "put_cell iv r =
     (if \<exists>cell \<in> set r. m_column_ix cell = m_column_ix iv
      then map (\<lambda>cell. if m_column_ix cell = m_column_ix iv then iv else cell) r
      else r @ [iv])"

definition set_row :: "nat \<Rightarrow> (row \<Rightarrow> row) \<Rightarrow> (nat \<times> row) list \<Rightarrow> (nat \<times> row) list" where
  "set_row h f rows = map (\<lambda>(h', r). if h' = h then (h', f r) else (h', r)) rows"

fun insert_after :: "nat \<Rightarrow> nat \<times> row \<Rightarrow> (nat \<times> row) list \<Rightarrow> (nat \<times> row) list" where
  "insert_after h x [] = []"
| "insert_after h x (y # ys) = (if fst y = h then y # x # ys else y # insert_after h x ys)"

definition put_category :: "datablock \<Rightarrow> nat \<Rightarrow> category \<Rightarrow> datablock" where
  "put_category db i c = db\<lparr>categories := (categories db)[i := c]\<rparr>"

definition with_rows :: "datablock \<Rightarrow> nat \<Rightarrow> (nat \<times> row) list \<Rightarrow> datablock" where
  "with_rows db i rows = put_category db i ((categories db ! i)\<lparr>m_rows := rows\<rparr>)"

text \<open>
  Modelled from the spec: the split of a child row, part of the missing
  \<open>category::update_value\<close>.  The spec: "Clone \<open>ch\<close> into \<open>ch2\<close> (deep copy of every cell),
  insert immediately after \<open>ch\<close>.  In \<open>ch2\<close>, rewrite exactly the columns of \<open>G.child_keys\<close>
  to the new parent tuple.  Leave \<open>ch\<close> unchanged".  \<open>write_keys\<close> writes values into named
  columns of a row with \<open>add_column\<close> and \<open>create_item\<close>; the copy is made by \<open>clone_row\<close> and
  gets a new handle.
\<close>

fun write_keys :: "category \<Rightarrow> row \<Rightarrow> (string \<times> string) list \<Rightarrow> (row \<times> category) res" where
  "write_keys c r [] = Some (Inr (r, c))"
| "write_keys c r ((k, v) # kvs) =
     (case add_column c k of
        None \<Rightarrow> None
      | Some (Inl e, _) \<Rightarrow> Some (Inl e)
      | Some (Inr ix, c') \<Rightarrow>
          (case create_item ix v of
             Inl e \<Rightarrow> Some (Inl e)
           | Inr cell \<Rightarrow> write_keys c' (put_cell cell r) kvs))"

definition split_row :: "category \<Rightarrow> nat \<Rightarrow> row \<Rightarrow> (string \<times> string) list \<Rightarrow> category res" where
  "split_row c h r kvs =
     (case clone_row r of
        Inl e \<Rightarrow> Some (Inl e)
      | Inr r2 \<Rightarrow>
          (case write_keys c r2 kvs of
             None \<Rightarrow> None
           | Some (Inl e) \<Rightarrow> Some (Inl e)
           | Some (Inr (r2', c')) \<Rightarrow>
               Some (Inr (c'\<lparr>m_rows := insert_after h (fresh_handle (m_rows c'), r2') (m_rows c')\<rparr>))))"

text \<open>
  Modelled from the spec: which child rows a parent row owns in a link group, part of the
  missing \<open>category::update_value\<close>.  The spec: "Compute the set \<open>S\<close> of child rows in the
  child category whose full join tuple (for \<open>G\<close>) matches the row's old key tuple".  In the
  key column that is updated the child must have the old value of the parent.  In the
  other key columns of the group a child field that is empty (\<open>item_handle::empty\<close>) matches
  as well: in test \<open>d4\<close> the child rows with \<open>.\<close> in \<open>parent_id2\<close> or \<open>parent_id3\<close> follow the
  renaming of their parent.  \<open>new_tuple\<close> is the key tuple of the parent row after the
  update.
\<close>

definition matches_parent ::
    "category \<Rightarrow> row \<Rightarrow> nat \<Rightarrow> link_validator \<Rightarrow> category \<Rightarrow> row \<Rightarrow> bool" where
  "matches_parent c r column G child rc \<longleftrightarrow>
     (\<forall>(pk, ck) \<in> set (zip (m_parent_keys G) (m_child_keys G)).
        if col_index c pk = column then field_text child rc ck = field_text c r pk
        else field_text child rc ck = field_text c r pk \<or> is_empty_text (field_text child rc ck))"

definition new_tuple :: "category \<Rightarrow> row \<Rightarrow> nat \<Rightarrow> string \<Rightarrow> link_validator \<Rightarrow> string list" where
  "new_tuple c r column v G =
     map (\<lambda>pk. if col_index c pk = column then v else field_text c r pk) (m_parent_keys G)"

text \<open>
  Modelled from the spec: "validating the value against the item validator if present".
\<close>

definition validate_value :: "category \<Rightarrow> nat \<Rightarrow> string \<Rightarrow> error + unit" where
  "validate_value c column v =
     (case (if column < length (m_columns c) then col_validator (m_columns c ! column) else None) of
        None \<Rightarrow> Inr ()
      | Some iv \<Rightarrow> item_validator_apply iv v)"

text \<open>
  Modelled from the spec: \<open>category::update_value(row, column, value)\<close>, the \<open>set_cell\<close> of
  the spec; its body is not part of the sources.  The spec: "If the column is not part of
  any parent key [...] the update is local and simply rewrites the cell, validating the
  value against the item validator if present.  If the column is a parent key, then for
  every link group \<open>G\<close> in which this category is the parent and this column belongs to
  \<open>G.parent_keys\<close>: 1. Compute the set \<open>S\<close> [...] 2. For each child \<open>ch\<close> in \<open>S\<close>, check
  whether \<open>ch\<close> has other link groups [...].  If yes [the split].  Otherwise, rewrite \<open>ch\<close>'s
  \<open>G.child_keys\<close> columns in place (recursively - the child may itself be a parent
  elsewhere).  3. After all children have been fixed, rewrite the parent row's cell."

  \<open>update_value n db cn h column v\<close> updates, in the row with handle \<open>h\<close> of the category at
  position \<open>cn\<close>, the cell of column \<open>column\<close> to \<open>v\<close>.  \<open>update_groups\<close> is the loop over the
  link groups, \<open>fix_children\<close> the loop over the child rows of one group and \<open>rewrite_keys\<close>
  the rewriting in place of the key columns of one child row, each by the recursive call
  \<open>upd\<close>.  The link graph may have cycles, so the recursion need not end (the design notes
  of the spec advise a set of visited rows): \<open>n\<close> bounds its depth and \<open>None\<close> is the result
  of a cascade that is deeper.  A handle that names no row is the error \<open>Null_pointer\<close>.
\<close>

type_synonym updater = "datablock \<Rightarrow> nat \<Rightarrow> nat \<Rightarrow> nat \<Rightarrow> string \<Rightarrow> datablock res"

fun rewrite_keys :: "updater \<Rightarrow> datablock \<Rightarrow> nat \<Rightarrow> nat \<Rightarrow> (string \<times> string) list \<Rightarrow> datablock res" where
  "rewrite_keys upd db cc ch [] = Some (Inr db)"
| "rewrite_keys upd db cc ch (kv # kvs) =
     (case add_column (categories db ! cc) (fst kv) of
        None \<Rightarrow> None
      | Some (Inl e, _) \<Rightarrow> Some (Inl e)
      | Some (Inr ix, c') \<Rightarrow>
          (case upd (put_category db cc c') cc ch (unat ix) (snd kv) of
             None \<Rightarrow> None
           | Some (Inl e) \<Rightarrow> Some (Inl e)
           | Some (Inr db') \<Rightarrow> rewrite_keys upd db' cc ch kvs))"

fun fix_children ::
    "updater \<Rightarrow> datablock \<Rightarrow> link_validator \<Rightarrow> nat \<times> nat \<Rightarrow> string list \<Rightarrow> nat \<Rightarrow> nat list \<Rightarrow> datablock res" where
  "fix_children upd db G p new cc [] = Some (Inr db)"
| "fix_children upd db G p new cc (ch # chs) =
     (let c = categories db ! cc in
      case map_of (m_rows c) ch of
        None \<Rightarrow> fix_children upd db G p new cc chs
      | Some r \<Rightarrow>
          if other_parent db c r G (Some p) then
            (case split_row c ch r (zip (m_child_keys G) new) of
               None \<Rightarrow> None
             | Some (Inl e) \<Rightarrow> Some (Inl e)
             | Some (Inr c') \<Rightarrow> fix_children upd (put_category db cc c') G p new cc chs)
          else
            (case rewrite_keys upd db cc ch (zip (m_child_keys G) new) of
               None \<Rightarrow> None
             | Some (Inl e) \<Rightarrow> Some (Inl e)
             | Some (Inr db') \<Rightarrow> fix_children upd db' G p new cc chs))"

fun update_groups ::
    "updater \<Rightarrow> datablock \<Rightarrow> nat \<Rightarrow> nat \<Rightarrow> nat \<Rightarrow> string \<Rightarrow> (nat \<times> link_validator) list \<Rightarrow> datablock res" where
  "update_groups upd db cn h column v [] = Some (Inr db)"
| "update_groups upd db cn h column v (l # ls) =
     (let c = categories db ! cn in
      case map_of (m_rows c) h of
        None \<Rightarrow> Some (Inl Null_pointer)
      | Some r \<Rightarrow>
          (case fix_children upd db (snd l) (cn, h) (new_tuple c r column v (snd l)) (fst l)
                  (map fst (filter (\<lambda>x. matches_parent c r column (snd l) (categories db ! fst l) (snd x))
                     (m_rows (categories db ! fst l)))) of
             None \<Rightarrow> None
           | Some (Inl e) \<Rightarrow> Some (Inl e)
           | Some (Inr db') \<Rightarrow> update_groups upd db' cn h column v ls))"

fun update_value :: "nat \<Rightarrow> updater" where
  "update_value 0 db cn h column v = None"
| "update_value (Suc n) db cn h column v =
     (if cn < length (categories db) then
        (let c = categories db ! cn in
         case map_of (m_rows c) h of
           None \<Rightarrow> Some (Inl Null_pointer)
         | Some r \<Rightarrow>
             (case validate_value c column v of
                Inl e \<Rightarrow> Some (Inl e)
              | Inr _ \<Rightarrow>
                  (case create_item (of_nat column) v of
                     Inl e \<Rightarrow> Some (Inl e)
                   | Inr cell \<Rightarrow>
                       (case update_groups (update_value n) db cn h column v
                               (filter (\<lambda>l. column \<in> set (map (col_index c) (m_parent_keys (snd l))))
                                  (child_links db c)) of
                          None \<Rightarrow> None
                        | Some (Inl e) \<Rightarrow> Some (Inl e)
                        | Some (Inr db') \<Rightarrow>
                            Some (Inr (with_rows db' cn
                                         (set_row h (put_cell cell) (m_rows (categories db' ! cn)))))))))
      else Some (Inl Null_pointer))"

text \<open>
  Modelled from the spec: \<open>category::erase(row)\<close>; its body is not part of the sources.
  The spec: "To erase a parent row, for every child link group, locate children whose join
  tuple matches the erased key; for each such child, erase it iff it has no other surviving
  parent link group that still resolves - otherwise blank only the columns of the removed
  link.  Erasure of a row removes it from its category's list and frees all its cells."
  The row is removed first, so that it is no live parent of its children; a child is
  erased by the recursive call \<open>ers\<close>; a column is blanked by writing the empty text.  As
  for \<open>update_value\<close>, \<open>n\<close> bounds the depth of the recursion.
\<close>

type_synonym eraser = "datablock \<Rightarrow> nat \<Rightarrow> nat \<Rightarrow> datablock res"

fun erase_children :: "eraser \<Rightarrow> datablock \<Rightarrow> link_validator \<Rightarrow> nat \<Rightarrow> nat list \<Rightarrow> datablock res" where
  "erase_children ers db G cc [] = Some (Inr db)"
| "erase_children ers db G cc (ch # chs) =
     (let c = categories db ! cc in
      case map_of (m_rows c) ch of
        None \<Rightarrow> erase_children ers db G cc chs
      | Some r \<Rightarrow>
          if other_parent db c r G None then
            (case write_keys c r (map (\<lambda>k. (k, [])) (m_child_keys G)) of
               None \<Rightarrow> None
             | Some (Inl e) \<Rightarrow> Some (Inl e)
             | Some (Inr (r', c')) \<Rightarrow>
                 erase_children ers (put_category db cc (c'\<lparr>m_rows := set_row ch (\<lambda>_. r') (m_rows c')\<rparr>)) G cc chs)
          else
            (case ers db cc ch of
               None \<Rightarrow> None
             | Some (Inl e) \<Rightarrow> Some (Inl e)
             | Some (Inr db') \<Rightarrow> erase_children ers db' G cc chs))"

fun erase_groups :: "eraser \<Rightarrow> datablock \<Rightarrow> category \<Rightarrow> row \<Rightarrow> (nat \<times> link_validator) list \<Rightarrow> datablock res" where
  "erase_groups ers db c r [] = Some (Inr db)"
| "erase_groups ers db c r (l # ls) =
     (case erase_children ers db (snd l) (fst l)
             (map fst (filter (\<lambda>x. join_tuple (categories db ! fst l) (snd x) (m_child_keys (snd l))
                                      = join_tuple c r (m_parent_keys (snd l)))
                (m_rows (categories db ! fst l)))) of
        None \<Rightarrow> None
      | Some (Inl e) \<Rightarrow> Some (Inl e)
      | Some (Inr db') \<Rightarrow> erase_groups ers db' c r ls)"

fun erase :: "nat \<Rightarrow> eraser" where
  "erase 0 db cn h = None"
| "erase (Suc n) db cn h =
     (if cn < length (categories db) then
        (let c = categories db ! cn in
         case map_of (m_rows c) h of
           None \<Rightarrow> Some (Inl Null_pointer)
         | Some r \<Rightarrow>
             erase_groups (erase n) (with_rows db cn (filter (\<lambda>x. fst x \<noteq> h) (m_rows c)))
               c r (child_links db c))
      else Some (Inl Null_pointer))"









section \<open>Test data\<close>

text \<open>
  The category of the spec's third scenario (and of test \<open>d2\<close>): \<open>cat_1\<close> with the key
  \<open>id\<close>, here of the case-insensitive type \<open>ucode\<close>, and one row whose \<open>id\<close> is \<open>AAP\<close>.
  \<open>char_key_category\<close> is the same category with \<open>id\<close> of the case-sensitive type \<open>code\<close>.
\<close>

definition id_validator :: "string \<Rightarrow> DDL_PrimitiveType \<Rightarrow> item_validator" where
  "id_validator type_name prim =
     \<lparr> m_tag = ''id'', m_mandatory = True,
       m_type = Some \<lparr> tv_name = type_name, m_primitive_type = prim, m_rx = Plus (NCls [CHR 0x00]) \<rparr>,
       m_enums = [], m_category = ''cat_1'' \<rparr>"

definition key_category :: "string \<Rightarrow> DDL_PrimitiveType \<Rightarrow> category" where
  "key_category type_name prim =
     \<lparr> cat_name = ''cat_1'',
       m_columns = [\<lparr> col_name = ''id'', col_validator = Some (id_validator type_name prim) \<rparr>],
       m_validator = Some \<lparr> m_strict = True, m_category_validators = [], m_link_validators = [] \<rparr>,
       m_cat_validator =
         Some \<lparr> cv_name = ''cat_1'', m_keys = [''id''],
                m_item_validators = [id_validator type_name prim] \<rparr>,
       m_rows = [(1, [\<lparr> m_column_ix = 0, m_length = 3, m_payload = Local_data (''AAP'' @ [CHR 0x00]) \<rparr>])] \<rparr>"

definition uchar_key_category :: category where
  "uchar_key_category = key_category ''ucode'' UChar"

definition char_key_category :: category where
  "char_key_category = key_category ''code'' Char"

text \<open>
  The stores of the tests \<open>d5\<close> and \<open>d4\<close>.  In \<open>d5\<close> three link groups lead from the columns
  \<open>parent_id\<close>, \<open>parent_id2\<close> and \<open>parent_id3\<close> of \<open>cat_2\<close> to \<open>cat_1.id\<close>; \<open>d5_data a b c\<close> is
  the store of the test with the parents named \<open>a\<close>, \<open>b\<close> and \<open>c\<close>.  In \<open>d4\<close> one link group joins
  three columns.  A cell is written as \<open>create_item\<close> makes it for a short text; a child row
  has no cell where the file has none.  \<open>and_then\<close> chains calls, \<open>sizes_after_erase\<close> erases
  rows of \<open>cat_1\<close> one after the other and reports the sizes of \<open>cat_1\<close> and \<open>cat_2\<close> after each
  call, \<open>parent_ids\<close> lists the column \<open>parent_id\<close> of \<open>cat_2\<close>.
\<close>

definition mk_cell :: "nat \<Rightarrow> string \<Rightarrow> item_value" where
  "mk_cell ix txt = \<lparr> m_column_ix = of_nat ix, m_length = of_nat (length txt),
                   m_payload = Local_data (txt @ [CHR 0x00]) \<rparr>"

definition d5_link :: "int \<Rightarrow> string \<Rightarrow> link_validator" where
  "d5_link g child_key =
     \<lparr> m_link_group_id = g, m_parent_category = ''cat_1'', m_parent_keys = [''id''],
       m_child_category = ''cat_2'', m_child_keys = [child_key] \<rparr>"

definition d5_validator :: validator where
  "d5_validator =
     \<lparr> m_strict = True, m_category_validators = [],
       m_link_validators = [d5_link 1 ''parent_id'', d5_link 2 ''parent_id2'', d5_link 3 ''parent_id3''] \<rparr>"

definition plain_column :: "string \<Rightarrow> item_column" where
  "plain_column name = \<lparr> col_name = name, col_validator = None \<rparr>"

definition child_row :: "string \<Rightarrow> string \<Rightarrow> string \<Rightarrow> string \<Rightarrow> row" where
  "child_row i p1 p2 p3 =
     mk_cell 0 i # (if p1 = [] then [] else [mk_cell 1 p1]) @ (if p2 = [] then [] else [mk_cell 2 p2])
       @ (if p3 = [] then [] else [mk_cell 3 p3])"

definition d5_data :: "string \<Rightarrow> string \<Rightarrow> string \<Rightarrow> datablock" where
  "d5_data a b c =
     \<lparr> db_name = ''test'', db_validator = Some d5_validator,
       categories =
         [\<lparr> cat_name = ''cat_1'', m_columns = [plain_column ''id''],
            m_validator = Some d5_validator, m_cat_validator = None,
            m_rows = [(1, [mk_cell 0 a]), (2, [mk_cell 0 b]), (3, [mk_cell 0 c])] \<rparr>,
          \<lparr> cat_name = ''cat_2'',
            m_columns = [plain_column ''id'', plain_column ''parent_id'', plain_column ''parent_id2'',
                         plain_column ''parent_id3''],
            m_validator = Some d5_validator, m_cat_validator = None,
            m_rows = [(1, child_row ''1'' a [] []), (2, child_row ''2'' [] a []),
                      (3, child_row ''3'' [] [] a), (4, child_row ''4'' b b []),
                      (5, child_row ''5'' b [] b), (6, child_row ''6'' [] b b),
                      (7, child_row ''7'' c c c)] \<rparr>] \<rparr>"

definition and_then :: "datablock res \<Rightarrow> (datablock \<Rightarrow> datablock res) \<Rightarrow> datablock res" where
  "and_then x f = (case x of None \<Rightarrow> None | Some (Inl e) \<Rightarrow> Some (Inl e) | Some (Inr db) \<Rightarrow> f db)"

fun sizes_after_erase :: "datablock \<Rightarrow> nat list \<Rightarrow> (nat \<times> nat) list option" where
  "sizes_after_erase db [] = Some []"
| "sizes_after_erase db (h # hs) =
     (case erase (Suc (Suc 0)) db 0 h of
        Some (Inr db') \<Rightarrow>
          map_option ((#) (length (m_rows (categories db' ! 0)), length (m_rows (categories db' ! 1))))
            (sizes_after_erase db' hs)
      | _ \<Rightarrow> None)"

definition d4_validator :: validator where
  "d4_validator =
     \<lparr> m_strict = True, m_category_validators = [],
       m_link_validators =
         [\<lparr> m_link_group_id = 0, m_parent_category = ''cat_1'', m_parent_keys = [''id'', ''id2'', ''id3''],
            m_child_category = ''cat_2'', m_child_keys = [''parent_id'', ''parent_id2'', ''parent_id3''] \<rparr>] \<rparr>"

definition d4 :: datablock where
  "d4 =
     \<lparr> db_name = ''test'', db_validator = Some d4_validator,
       categories =
         [\<lparr> cat_name = ''cat_1'', m_columns = [plain_column ''id'', plain_column ''id2'', plain_column ''id3''],
            m_validator = Some d4_validator, m_cat_validator = None,
            m_rows = [(1, [mk_cell 0 ''1'', mk_cell 1 ''aap'', mk_cell 2 ''aap'']),
                      (2, [mk_cell 0 ''2'', mk_cell 1 ''.'', mk_cell 2 ''noot'']),
                      (3, [mk_cell 0 ''3'', mk_cell 1 ''mies'', mk_cell 2 ''.'']),
                      (4, [mk_cell 0 ''4'', mk_cell 1 ''.'', mk_cell 2 ''.''])] \<rparr>,
          \<lparr> cat_name = ''cat_2'',
            m_columns = [plain_column ''id'', plain_column ''parent_id'', plain_column ''parent_id2'',
                         plain_column ''parent_id3''],
            m_validator = Some d4_validator, m_cat_validator = None,
            m_rows = [(1, child_row ''1'' ''1'' ''aap'' ''aap''), (2, child_row ''2'' ''1'' ''.'' ''x''),
                      (3, child_row ''3'' ''1'' ''aap'' ''.''), (4, child_row ''4'' ''2'' ''noot'' ''noot''),
                      (5, child_row ''5'' ''2'' ''.'' ''noot''), (6, child_row ''6'' ''2'' ''noot'' ''.''),
                      (7, child_row ''7'' ''2'' ''.'' ''.''), (8, child_row ''8'' ''3'' ''mies'' ''mies''),
                      (9, child_row ''9'' ''3'' ''.'' ''mies''), (10, child_row ''10'' ''3'' ''mies'' ''.''),
                      (11, child_row ''11'' ''4'' ''roos'' ''roos''), (12, child_row ''12'' ''4'' ''.'' ''roos''),
                      (13, child_row ''13'' ''4'' ''roos'' ''.'')] \<rparr>] \<rparr>"

definition parent_ids :: "datablock res \<Rightarrow> string list option" where
  "parent_ids x =
     (case x of
        Some (Inr db) \<Rightarrow> Some (map (\<lambda>hr. row_text (snd hr) 1) (m_rows (categories db ! 1)))
      | _ \<Rightarrow> None)"

text \<open>
  A store with two link groups into \<open>cat_2\<close>: group 1 from \<open>cat_1.id\<close> to \<open>cat_2.parent_id\<close>,
  group 2 from \<open>cat_3.id\<close> to \<open>cat_2.other_id\<close>.  The rows 1 and 2 of \<open>cat_2\<close> are children of
  the row 1 of \<open>cat_1\<close>; the row 1 has another parent in \<open>cat_3\<close>, the row 2 has none.
  \<open>typed_link_fixture\<close> is the same store with an item validator on \<open>cat_2.parent_id\<close> that
  accepts digits only.
\<close>

definition link_fixture_validator :: validator where
  "link_fixture_validator =
     \<lparr> m_strict = True, m_category_validators = [],
       m_link_validators =
         [\<lparr> m_link_group_id = 1, m_parent_category = ''cat_1'', m_parent_keys = [''id''],
            m_child_category = ''cat_2'', m_child_keys = [''parent_id''] \<rparr>,
          \<lparr> m_link_group_id = 2, m_parent_category = ''cat_3'', m_parent_keys = [''id''],
            m_child_category = ''cat_2'', m_child_keys = [''other_id''] \<rparr>] \<rparr>"

definition link_fixture :: datablock where
  "link_fixture =
     \<lparr> db_name = ''test'', db_validator = Some link_fixture_validator,
       categories =
         [\<lparr> cat_name = ''cat_1'', m_columns = [plain_column ''id''],
            m_validator = Some link_fixture_validator, m_cat_validator = None,
            m_rows = [(1, [mk_cell 0 ''1'']), (2, [mk_cell 0 ''2''])] \<rparr>,
          \<lparr> cat_name = ''cat_2'',
            m_columns = [plain_column ''id'', plain_column ''parent_id'', plain_column ''other_id''],
            m_validator = Some link_fixture_validator, m_cat_validator = None,
            m_rows = [(1, [mk_cell 0 ''1'', mk_cell 1 ''1'', mk_cell 2 ''7'']),
                      (2, [mk_cell 0 ''2'', mk_cell 1 ''1'']),
                      (3, [mk_cell 0 ''3'', mk_cell 1 ''2'', mk_cell 2 ''7''])] \<rparr>,
          \<lparr> cat_name = ''cat_3'', m_columns = [plain_column ''id''],
            m_validator = Some link_fixture_validator, m_cat_validator = None,
            m_rows = [(1, [mk_cell 0 ''7''])] \<rparr>] \<rparr>"

definition digits_validator :: item_validator where
  "digits_validator =
     \<lparr> m_tag = ''parent_id'', m_mandatory = False,
       m_type = Some \<lparr> tv_name = ''int'', m_primitive_type = Numb, m_rx = Plus (Cls ''0123456789'') \<rparr>,
       m_enums = [], m_category = ''cat_2'' \<rparr>"

definition typed_link_fixture :: datablock where
  "typed_link_fixture =
     link_fixture\<lparr>categories :=
       (categories link_fixture)
         [1 := (categories link_fixture ! 1)
                 \<lparr>m_columns := [plain_column ''id'',
                                \<lparr> col_name = ''parent_id'', col_validator = Some digits_validator \<rparr>,
                                plain_column ''other_id'']\<rparr>]\<rparr>"


section \<open>Properties\<close>

subsection \<open>Characters and the scanner\<close>

lemmas State_defs = State_Start_def State_White_def State_Comment_def State_QuestionMark_def
  State_Dot_def State_QuotedString_def State_QuotedStringQuote_def State_UnquotedString_def
  State_Tag_def State_TextField_def State_Float_def State_Int_def State_Value_def State_DATA_def State_SAVE_def

lemma getNextChar_token:
  "mTokenValue (snd (getNextChar s)) = mTokenValue s @ [to_char (fst (getNextChar s))]"
  by (simp add: getNextChar_def stream_get_def Let_def split: list.splits prod.splits if_splits)

lemma getNextChar_upd:
  "getNextChar (s\<lparr>state := a\<rparr>) = (fst (getNextChar s), (snd (getNextChar s))\<lparr>state := a\<rparr>)"
  "getNextChar (s\<lparr>start := a\<rparr>) = (fst (getNextChar s), (snd (getNextChar s))\<lparr>start := a\<rparr>)"
  "getNextChar (s\<lparr>m_bol := b\<rparr>) = (fst (getNextChar s), (snd (getNextChar s))\<lparr>m_bol := b\<rparr>)"
  by (simp_all add: getNextChar_def stream_get_def Let_def split: list.splits prod.splits if_splits)

lemma getNextChar_fields:
  "state (snd (getNextChar s)) = state s"
  "start (snd (getNextChar s)) = start s"
  "result (snd (getNextChar s)) = result s"
  "quoteChar (snd (getNextChar s)) = quoteChar s"
  "m_bol (snd (getNextChar s)) = m_bol s"
  "mTokenType (snd (getNextChar s)) = mTokenType s"
  by (simp_all add: getNextChar_def stream_get_def Let_def split: list.splits prod.splits if_splits)

lemma to_char_schar: "to_char (schar k) = k"
proof -
  have "char_of (of_char k - 256 :: int) = char_of (of_char k :: int)"
    by (simp add: char_of_eq_iff take_bit_eq_mod)
  then show ?thesis by (simp add: to_char_def schar_def)
qed

lemma uchar_range: "0 \<le> uchar k \<and> uchar k < 256"
proof -
  have g: "0 \<le> (x::int) mod 256 \<and> x mod 256 < 256" for x by simp
  have m: "(of_char k :: int) mod 256 = of_char k" by (rule of_char_mod_256)
  show ?thesis using g[of "of_char k"] unfolding m by (simp add: uchar_def)
qed

lemma uchar_eq_iff: "uchar k = n \<longleftrightarrow> (0 \<le> n \<and> n < 256 \<and> k = to_char n)"
proof
  assume "uchar k = n"
  then show "0 \<le> n \<and> n < 256 \<and> k = to_char n"
    using uchar_range[of k] by (auto simp: uchar_def to_char_def)
next
  assume "0 \<le> n \<and> n < 256 \<and> k = to_char n"
  then show "uchar k = n"
    by (simp add: uchar_def to_char_def of_char_of)
qed

lemma schar_eq_iff: "0 \<le> n \<Longrightarrow> n < 128 \<Longrightarrow> schar k = n \<longleftrightarrow> k = to_char n"
  using uchar_range[of k] uchar_eq_iff[of k n] by (auto simp: schar_def uchar_def)

lemma schar_eq_10: "schar k = 10 \<longleftrightarrow> k = CHR 0x0A"
  by (simp add: schar_eq_iff to_char_def char_of_def)

lemma schar_eq_13: "schar k = 13 \<longleftrightarrow> k = CHR 0x0D"
  by (simp add: schar_eq_iff to_char_def char_of_def)

lemma reread_single:
  assumes "mTokenValue s1 = [k]" "k \<noteq> CHR 0x0A" "k \<noteq> CHR 0x0D"
  shows "getNextChar (retract_all s1) = (schar k, s1)"
proof -
  have "retract_all s1 = retract s1"
    using assms by (subst retract_all.simps, subst retract_all.simps) (simp add: retract_def Let_def)
  also have "\<dots> = s1\<lparr>mBuffer := schar k # mBuffer s1, mTokenValue := []\<rparr>"
    using assms by (simp add: retract_def Let_def)
  finally show ?thesis
    using assms by (simp add: getNextChar_def Let_def to_char_schar schar_eq_10 schar_eq_13)
qed

lemma token_loop_step:
  "result s = CIFToken_Unknown \<Longrightarrow> step s = Inr s' \<Longrightarrow> token_loop s = token_loop s'"
  by (subst token_loop.simps) simp

lemma token_loop_done:
  "result s \<noteq> CIFToken_Unknown \<Longrightarrow> token_loop s = Some (Inr s)"
  by (subst token_loop.simps) simp

lemma start_token_fields:
  "state (start_token p) = State_Start" "start (start_token p) = State_Start"
  "result (start_token p) = CIFToken_Unknown" "mTokenValue (start_token p) = []"
  "mTokenType (start_token p) = CIFValue_Unknown" "m_bol (start_token p) = False"
  by (simp_all add: start_token_def sac_parser.defs lexer.defs)

lemma is_non_blank_95: "is_non_blank 95"
  by (simp add: is_non_blank_def kCharTraitsTable_def kNonBlankMask_def)

lemma step_split:
  "step s0 = (let ch = fst (getNextChar s0); s = snd (getNextChar s0) in
      if state s0 = State_Start then step_Start ch s
      else if state s0 = State_White then step_White ch s
      else if state s0 = State_Comment then step_Comment ch s
      else if state s0 = State_TextField then step_TextField ch s
      else if state s0 = State_TextField + 1 then step_TextField1 ch s
      else if state s0 = State_QuotedString then step_QuotedString ch s
      else if state s0 = State_QuotedStringQuote then step_QuotedStringQuote ch s
      else if state s0 = State_Tag then step_Tag ch s
      else if state s0 = State_Float then step_Float ch s
      else if state s0 = State_Float + 1 then step_Float1 ch s
      else if state s0 = State_Float + 2 then step_Float2 ch s
      else if state s0 = State_Float + 3 then step_Float3 ch s
      else if state s0 = State_Float + 4 then step_Float4 ch s
      else if state s0 = State_Float + 5 then step_Float5 ch s
      else if state s0 = State_Int then step_Int ch s
      else if state s0 = State_Int + 1 then step_Int1 ch s
      else if state s0 = State_Value then step_Value ch s
      else if state s0 = State_DATA \<or> state s0 = State_SAVE then step_DATA_SAVE ch s
      else Inl (error_at s ''Invalid state in get_next_token''))"
  by (simp add: step_def Let_def case_prod_beta getNextChar_fields)

lemma reread_upd:
  assumes "mTokenValue s = [to_char n]" "n = 63 \<or> n = 46"
  shows "getNextChar ((retract_all s)\<lparr>m_bol := b, state := x, start := y\<rparr>)
         = (n, s\<lparr>m_bol := b, state := x, start := y\<rparr>)"
proof -
  have kn: "to_char n \<noteq> CHR 0x0A" "to_char n \<noteq> CHR 0x0D" "schar (to_char n) = n"
    using assms(2) by (auto simp: to_char_def char_of_def schar_def)
  show ?thesis
    using reread_single[OF assms(1) kn(1,2)] kn(3) by (simp add: getNextChar_upd)
qed

lemma ladder_Float:
  assumes "mTokenValue s = [to_char n]" "n = 63 \<or> n = 46"
  shows "step ((retract_all s)\<lparr>m_bol := False, state := State_Float, start := State_Float\<rparr>)
         = Inr ((retract_all (s\<lparr>m_bol := False, state := State_Float, start := State_Float\<rparr>))
                  \<lparr>m_bol := False, state := State_Int, start := State_Int\<rparr>)"
proof -
  have "step_Float n (s\<lparr>m_bol := False, state := State_Float, start := State_Float\<rparr>)
        = do_restart (s\<lparr>m_bol := False, state := State_Float, start := State_Float\<rparr>)"
    using assms(2) by (auto simp: step_Float_def isdigit_def)
  then show ?thesis
    by (simp add: step_split reread_upd[OF assms] do_restart_def restart_def State_defs)
qed

lemma ladder_Int:
  assumes "mTokenValue s = [to_char n]" "n = 63 \<or> n = 46"
  shows "step ((retract_all s)\<lparr>m_bol := False, state := State_Int, start := State_Int\<rparr>)
         = Inr ((retract_all (s\<lparr>m_bol := False, state := State_Int, start := State_Int\<rparr>))
                  \<lparr>m_bol := False, state := State_Value, start := State_Value\<rparr>)"
proof -
  have "step_Int n (s\<lparr>m_bol := False, state := State_Int, start := State_Int\<rparr>)
        = do_restart (s\<lparr>m_bol := False, state := State_Int, start := State_Int\<rparr>)"
    using assms(2) by (auto simp: step_Int_def isdigit_def)
  then show ?thesis
    by (simp add: step_split reread_upd[OF assms] do_restart_def restart_def State_defs)
qed

lemma ladder_Value:
  assumes "mTokenValue s = [to_char n]" "n = 63 \<or> n = 46" "result s = CIFToken_Unknown"
  shows "step ((retract_all s)\<lparr>m_bol := False, state := State_Value, start := State_Value\<rparr>)
         = Inr (s\<lparr>m_bol := False, state := State_Value, start := State_Value\<rparr>)"
proof -
  have nb: "is_non_blank n"
    using assms(2) by (auto simp: is_non_blank_def kCharTraitsTable_def kNonBlankMask_def)
  have "step_Value n (s\<lparr>m_bol := False, state := State_Value, start := State_Value\<rparr>)
        = Inr (s\<lparr>m_bol := False, state := State_Value, start := State_Value\<rparr>)"
    using assms(2,3) nb by (auto simp: step_Value_def step_Value_tail_def)
  then show ?thesis
    by (simp add: step_split reread_upd[OF assms(1,2)] State_defs)
qed

lemma result_retract_all: "result (retract_all x) = result (x :: lexer)"
  by (induction x rule: retract_all.induct) (subst retract_all.simps, simp add: retract_def Let_def)

lemma retract_getNextChar:
  "mTokenValue (retract (snd (getNextChar s))) = mTokenValue s"
  "result (retract (snd (getNextChar s))) = result s"
  "mTokenType (retract (snd (getNextChar s))) = mTokenType s"
  by (simp_all add: retract_def Let_def getNextChar_token getNextChar_fields)

lemma value_completion_step:
  assumes "state s = State_Value" "result s = CIFToken_Unknown"
    and "\<not> is_non_blank (fst (getNextChar s))"
  shows "\<exists>s'. step s = Inr s' \<and> result s' = CIFToken_Value
           \<and> mTokenValue s' = (if mTokenValue s = ''?'' then [] else mTokenValue s)
           \<and> mTokenType s' = (if mTokenValue s = ''.'' then CIFValue_Inapplicable
                               else if mTokenValue s = ''?'' then CIFValue_Unknown
                               else mTokenType s)"
proof -
  have ne: "fst (getNextChar s) \<noteq> 95"
    using assms(3) is_non_blank_95 by auto
  have "step s = Inr (value_completed (snd (getNextChar s)))"
    using assms ne by (simp add: step_split State_defs step_Value_def step_Value_tail_def getNextChar_fields)
  then show ?thesis
    by (simp add: value_completed_def Let_def retract_getNextChar)
qed

lemmas step_defs = step_Start_def step_White_def step_Comment_def step_TextField_def step_TextField1_def
  step_QuotedString_def step_QuotedStringQuote_def step_Tag_def step_Float_def step_Float1_def step_Float2_def
  step_Float3_def step_Float4_def step_Float5_def step_Int_def step_Int1_def step_Value_def step_Value_tail_def
  step_DATA_SAVE_def

lemma do_restart_result:
  "do_restart s = Inr s' \<Longrightarrow> result s' = result s"
  by (auto simp: do_restart_def restart_def Let_def result_retract_all split: if_splits)

lemma result_retract: "result (retract x) = result (x :: lexer)"
  by (simp add: retract_def Let_def)

lemma finish_value_token:
  "mTokenValue (finish_value t (snd (getNextChar s))) = mTokenValue s"
  by (simp add: finish_value_def retract_getNextChar)

lemma value_completed_token:
  "mTokenValue (value_completed (snd (getNextChar s))) = (if mTokenValue s = ''?'' then [] else mTokenValue s)"
  by (simp add: value_completed_def Let_def retract_getNextChar)

lemma unquoted_keeps_text:
  assumes "result s = CIFToken_Unknown" "step s = Inr s'" "result s' = CIFToken_Value"
    and "state s \<noteq> State_TextField + 1" "state s \<noteq> State_QuotedStringQuote"
  shows "mTokenValue s' = (if state s = State_Value \<and> mTokenValue s = ''?'' then [] else mTokenValue s)"
proof -
  have r: "result (snd (getNextChar s)) = CIFToken_Unknown"
    using assms(1) by (simp add: getNextChar_fields)
  note dr = do_restart_result[of "snd (getNextChar s)" s']
  show ?thesis
    using assms r dr
    unfolding step_split Let_def
    by (auto simp: step_defs State_defs finish_value_token value_completed_token retract_getNextChar result_retract Let_def
             split: if_splits)
qed


subsection \<open>Scanning an unquoted lexeme\<close>

lemma getNextChar_pending:
  assumes "pending s = c # cs" "c \<noteq> 13"
  shows "fst (getNextChar s) = c \<and> pending (snd (getNextChar s)) = cs"
proof (cases "mBuffer s")
  case Nil
  with assms obtain x xs where "mData s = x # xs" "uchar x = c" "map uchar xs = cs"
    by (auto simp: pending_def)
  with Nil assms(2) show ?thesis
    by (simp add: getNextChar_def stream_get_def pending_def Let_def)
next
  case (Cons b bs)
  with assms have "b = c" "bs @ map uchar (mData s) = cs" by (simp_all add: pending_def)
  with Cons assms(2) show ?thesis
    by (simp add: getNextChar_def stream_get_def pending_def Let_def)
qed

lemma getNextChar_end:
  assumes "pending s = [] \<or> \<not> is_non_blank (hd (pending s))"
  shows "\<not> is_non_blank (fst (getNextChar s))"
proof (cases "pending s")
  case Nil
  then have "mBuffer s = []" "mData s = []" by (simp_all add: pending_def)
  then show ?thesis
    by (simp add: getNextChar_def stream_get_def Let_def kEOF_def is_non_blank_def)
next
  case (Cons c cs)
  show ?thesis
  proof (cases "c = 13")
    case True
    have "fst (getNextChar s) = 10"
    proof (cases "mBuffer s")
      case Nil
      with Cons True obtain x xs where "mData s = x # xs" "uchar x = 13" by (auto simp: pending_def)
      with Nil show ?thesis
        by (simp add: getNextChar_def stream_get_def Let_def split: list.splits prod.splits)
    next
      case (Cons b bs)
      with \<open>pending s = c # cs\<close> True have "b = 13" by (simp add: pending_def)
      with Cons show ?thesis
        by (simp add: getNextChar_def stream_get_def Let_def split: list.splits prod.splits)
    qed
    then show ?thesis by (simp add: is_non_blank_def)
  next
    case False
    from getNextChar_pending[OF Cons False] assms Cons show ?thesis by simp
  qed
qed

lemma pending_upd:
  "pending (s\<lparr>state := a\<rparr>) = pending s"
  "pending (s\<lparr>start := a'\<rparr>) = pending s"
  "pending (s\<lparr>m_bol := b\<rparr>) = pending s"
  "pending (s\<lparr>mTokenValue := t\<rparr>) = pending s"
  "pending (s\<lparr>result := r\<rparr>) = pending s"
  by (simp_all add: pending_def)

lemma pending_start_token: "pending (start_token p) = pending p"
  by (simp add: pending_def start_token_def sac_parser.defs lexer.defs)


lemma ladder_from_start:
  assumes f0: "state s0 = State_Start" "start s0 = State_Start" "result s0 = CIFToken_Unknown"
       "mTokenValue s0 = []"
    and n: "fst (getNextChar s0) = n" and k: "n = 63 \<or> n = 46"
  shows "token_loop s0 =
         token_loop ((snd (getNextChar s0))\<lparr>m_bol := False, state := State_Value, start := State_Value\<rparr>)"
proof -
  define s1 where "s1 = snd (getNextChar s0)"
  define sF where "sF = s1\<lparr>m_bol := False, state := State_Float, start := State_Float\<rparr>"
  define sI where "sI = sF\<lparr>m_bol := False, state := State_Int, start := State_Int\<rparr>"
  have tok1: "mTokenValue s1 = [to_char n]"
    using n f0 by (simp add: s1_def getNextChar_token)
  have f1: "state s1 = State_Start" "start s1 = State_Start" "result s1 = CIFToken_Unknown"
    using f0 by (simp_all add: s1_def getNextChar_fields)
  have tokF: "mTokenValue sF = [to_char n]" and tokI: "mTokenValue sI = [to_char n]"
    and resI: "result sI = CIFToken_Unknown"
    using tok1 f1 by (simp_all add: sF_def sI_def)
  have "step_Start n s1 = do_restart s1"
    using k f1 by (auto simp add: step_Start_def kEOF_def)
  then have st0: "step s0 = Inr ((retract_all s1)\<lparr>m_bol := False, state := State_Float, start := State_Float\<rparr>)"
    using f0 f1 n by (simp add: step_split s1_def[symmetric] do_restart_def restart_def)
  have "token_loop s0 = token_loop ((retract_all s1)\<lparr>m_bol := False, state := State_Float, start := State_Float\<rparr>)"
    using token_loop_step[OF f0(3) st0] .
  also have "\<dots> = token_loop ((retract_all sF)\<lparr>m_bol := False, state := State_Int, start := State_Int\<rparr>)"
    using ladder_Float[OF tok1 k] f1 by (intro token_loop_step) (simp_all add: result_retract_all sF_def)
  also have "\<dots> = token_loop ((retract_all sI)\<lparr>m_bol := False, state := State_Value, start := State_Value\<rparr>)"
    using ladder_Int[OF tokF k] f1 by (intro token_loop_step) (simp_all add: result_retract_all sF_def sI_def)
  also have "\<dots> = token_loop (sI\<lparr>m_bol := False, state := State_Value, start := State_Value\<rparr>)"
    using ladder_Value[OF tokI k resI] f1 by (intro token_loop_step) (simp_all add: result_retract_all sF_def sI_def)
  finally show ?thesis
    by (simp add: s1_def sF_def sI_def)
qed

lemma single_char_from_start:
  assumes f0: "state s0 = State_Start" "start s0 = State_Start" "result s0 = CIFToken_Unknown"
       "mTokenValue s0 = []"
    and n: "fst (getNextChar s0) = n" and k: "n = 63 \<or> n = 46"
    and c: "\<not> is_non_blank (fst (getNextChar (snd (getNextChar s0))))"
  shows "\<exists>s'. token_loop s0 = Some (Inr s') \<and> result s' = CIFToken_Value
           \<and> mTokenValue s' = (if n = 63 then [] else ''.'')
           \<and> mTokenType s' = (if n = 63 then CIFValue_Unknown else CIFValue_Inapplicable)"
proof -
  define sV where "sV = (snd (getNextChar s0))\<lparr>m_bol := False, state := State_Value, start := State_Value\<rparr>"
  have tokV: "mTokenValue sV = [to_char n]"
    using n f0 by (simp add: sV_def getNextChar_token)
  have fV: "state sV = State_Value" "result sV = CIFToken_Unknown"
    using f0 by (simp_all add: sV_def getNextChar_fields)
  have cV: "\<not> is_non_blank (fst (getNextChar sV))"
    using c by (simp add: sV_def getNextChar_upd)
  from value_completion_step[OF fV cV] obtain s' where s':
    "step sV = Inr s'" "result s' = CIFToken_Value"
    "mTokenValue s' = (if mTokenValue sV = ''?'' then [] else mTokenValue sV)"
    "mTokenType s' = (if mTokenValue sV = ''.'' then CIFValue_Inapplicable
                               else if mTokenValue sV = ''?'' then CIFValue_Unknown
                               else mTokenType sV)"
    by blast
  have "token_loop s0 = token_loop sV"
    using ladder_from_start[OF f0 n k] by (simp add: sV_def)
  also have "\<dots> = token_loop s'"
    using token_loop_step[OF fV(2) s'(1)] .
  also have "\<dots> = Some (Inr s')"
    using s'(2) by (simp add: token_loop_done)
  finally have g: "token_loop s0 = Some (Inr s')" .
  have "to_char 63 = CHR ''?''" "to_char 46 = CHR ''.''"
    by (simp_all add: to_char_def char_of_def)
  then show ?thesis
    using g s' tokV k by auto
qed

lemma skip_white:
  assumes "state s = State_White" "start s = State_Start" "result s = CIFToken_Unknown"
    and "pending s = ws @ n # rest" "set ws \<subseteq> {9, 10, 32}" "33 \<le> n \<and> n \<le> 126"
  shows "\<exists>s'. token_loop s = token_loop s' \<and> state s' = State_Start \<and> start s' = State_Start
           \<and> result s' = CIFToken_Unknown \<and> mTokenValue s' = [] \<and> pending s' = n # rest"
  using assms
proof (induction ws arbitrary: s)
  case Nil
  then have p: "pending s = n # rest" by simp
  have n13: "n \<noteq> 13" using Nil.prems(6) by auto
  note g = getNextChar_pending[OF p n13]
  let ?s1 = "snd (getNextChar s)"
  have tok: "mTokenValue ?s1 = mTokenValue s @ [to_char n]"
    using g by (simp add: getNextChar_token)
  have nsp: "\<not> isspace n" "n \<noteq> kEOF" using Nil.prems(6) by (auto simp: isspace_def kEOF_def)
  have sc: "schar (to_char n) = n" "to_char n \<noteq> CHR 0x0A"
    using Nil.prems(6) schar_eq_10[of "to_char n"] by (auto simp: to_char_def schar_def)
  let ?s' = "(retract (?s1\<lparr>state := State_Start\<rparr>))\<lparr>mTokenValue := []\<rparr>"
  have st: "step s = Inr ?s'"
    using Nil.prems(1) g nsp by (simp add: step_split State_defs step_White_def)
  have pe: "pending ?s' = n # rest"
    using g tok sc by (simp add: retract_def Let_def pending_def)
  have fl: "state ?s' = State_Start" "start ?s' = State_Start" "result ?s' = CIFToken_Unknown"
       "mTokenValue ?s' = []"
    using Nil.prems(2,3) tok by (simp_all add: retract_def Let_def getNextChar_fields)
  from token_loop_step[OF Nil.prems(3) st] fl pe show ?case by blast
next
  case (Cons w ws)
  then have p: "pending s = w # (ws @ n # rest)" and w: "w = 9 \<or> w = 10 \<or> w = 32" by auto
  have w13: "w \<noteq> 13" using w by auto
  note g = getNextChar_pending[OF p w13]
  let ?s1 = "snd (getNextChar s)"
  have sp: "isspace w" "w \<noteq> kEOF" using w by (auto simp: isspace_def kEOF_def)
  let ?s' = "?s1\<lparr>m_bol := (w = 10)\<rparr>"
  have st: "step s = Inr ?s'"
    using Cons.prems(1) g sp by (simp add: step_split State_defs step_White_def)
  have fl: "state ?s' = State_White" "start ?s' = State_Start" "result ?s' = CIFToken_Unknown"
    using Cons.prems(1,2,3) by (simp_all add: getNextChar_fields)
  have pe: "pending ?s' = ws @ n # rest" using g by (simp add: pending_upd)
  from Cons.prems(5) have ws: "set ws \<subseteq> {9, 10, 32}" by simp
  from Cons.IH[OF fl pe ws Cons.prems(6)] obtain s'' where
    "token_loop ?s' = token_loop s''" "state s'' = State_Start" "start s'' = State_Start"
    "result s'' = CIFToken_Unknown" "mTokenValue s'' = []" "pending s'' = n # rest"
    by blast
  with token_loop_step[OF Cons.prems(3) st] show ?case by (metis)
qed

lemma skip_blanks:
  assumes "pending p = ws @ n # rest" "set ws \<subseteq> {9, 10, 32}" "33 \<le> n \<and> n \<le> 126"
  shows "\<exists>s'. get_next_token p = token_loop s' \<and> state s' = State_Start \<and> start s' = State_Start
           \<and> result s' = CIFToken_Unknown \<and> mTokenValue s' = [] \<and> pending s' = n # rest"
proof (cases ws)
  case Nil
  with assms(1) have "pending (start_token p) = n # rest" by (simp add: pending_start_token)
  then show ?thesis
    unfolding get_next_token_def using start_token_fields(1-4)[of p] by blast
next
  case (Cons w ws')
  let ?s = "start_token p"
  from Cons assms have p: "pending ?s = w # (ws' @ n # rest)" and w: "w = 9 \<or> w = 10 \<or> w = 32"
    and ws': "set ws' \<subseteq> {9, 10, 32}"
    by (auto simp: pending_start_token)
  have w13: "w \<noteq> 13" using w by auto
  note g = getNextChar_pending[OF p w13]
  let ?s1 = "snd (getNextChar ?s)"
  let ?s' = "if w = 10 then ?s1\<lparr>m_bol := True, state := State_White\<rparr> else ?s1\<lparr>state := State_White\<rparr>"
  have st: "step ?s = Inr ?s'"
    using g w by (auto simp: step_split start_token_fields State_defs step_Start_def kEOF_def)
  have fl: "state ?s' = State_White" "start ?s' = State_Start" "result ?s' = CIFToken_Unknown"
    by (simp_all add: getNextChar_fields start_token_fields)
  have pe: "pending ?s' = ws' @ n # rest" using g by (simp add: pending_upd)
  from skip_white[OF fl pe ws' assms(3)] obtain s'' where
    "token_loop ?s' = token_loop s''" "state s'' = State_Start" "start s'' = State_Start"
    "result s'' = CIFToken_Unknown" "mTokenValue s'' = []" "pending s'' = n # rest"
    by blast
  with token_loop_step[OF start_token_fields(3) st] show ?thesis
    unfolding get_next_token_def by metis
qed

lemma blank_then_single_char:
  assumes "pending p = ws @ n # rest" "set ws \<subseteq> {9, 10, 32}" "n = 63 \<or> n = 46"
    and "rest = [] \<or> \<not> is_non_blank (hd rest)"
  shows "\<exists>s'. get_next_token p = Some (Inr s') \<and> result s' = CIFToken_Value
           \<and> mTokenValue s' = (if n = 63 then [] else ''.'')
           \<and> mTokenType s' = (if n = 63 then CIFValue_Unknown else CIFValue_Inapplicable)"
proof -
  have "33 \<le> n \<and> n \<le> 126" using assms(3) by auto
  from skip_blanks[OF assms(1,2) this] obtain s0 where
    g: "get_next_token p = token_loop s0" and
    f0: "state s0 = State_Start" "start s0 = State_Start" "result s0 = CIFToken_Unknown" "mTokenValue s0 = []" and
    p0: "pending s0 = n # rest"
    by blast
  have n13: "n \<noteq> 13" using assms(3) by auto
  note r = getNextChar_pending[OF p0 n13]
  from r assms(4) have "pending (snd (getNextChar s0)) = [] \<or> \<not> is_non_blank (hd (pending (snd (getNextChar s0))))"
    by simp
  from getNextChar_end[OF this] have c: "\<not> is_non_blank (fst (getNextChar (snd (getNextChar s0))))" .
  from single_char_from_start[OF f0 _ assms(3) c] r g show ?thesis by simp
qed

lemma non_blank_entries: "\<forall>i \<in> set [1 ..< 95]. (kCharTraitsTable ! i) AND kNonBlankMask \<noteq> 0"
  by code_simp

lemma is_non_blank_iff: "is_non_blank d \<longleftrightarrow> 33 \<le> d \<and> d \<le> 126"
proof
  assume "is_non_blank d"
  then have r: "32 < d" "d \<le> 127" "(kCharTraitsTable ! nat (d - 32)) AND kNonBlankMask \<noteq> 0"
    by (simp_all add: is_non_blank_def)
  have "d \<noteq> 127"
  proof
    assume "d = 127"
    with r(3) show False by (simp add: kCharTraitsTable_def kNonBlankMask_def)
  qed
  with r show "33 \<le> d \<and> d \<le> 126" by simp
next
  assume a: "33 \<le> d \<and> d \<le> 126"
  then have "nat (d - 32) \<in> set [1 ..< 95]" by auto
  with non_blank_entries have "(kCharTraitsTable ! nat (d - 32)) AND kNonBlankMask \<noteq> 0" by blast
  with a show "is_non_blank d" by (simp add: is_non_blank_def)
qed

lemma good_char:
  assumes "is_non_blank (uchar c)"
  shows "to_char (uchar c) = c" "schar c = uchar c" "uchar c \<noteq> 13" "uchar c \<noteq> kEOF"
    "\<not> isspace (uchar c)" "c \<noteq> CHR 0x0A"
proof -
  from assms have r: "33 \<le> uchar c" "uchar c \<le> 126" by (simp_all add: is_non_blank_iff)
  show "to_char (uchar c) = c" by (simp add: to_char_def uchar_def)
  show "schar c = uchar c" using r by (simp add: schar_def uchar_def)
  show "uchar c \<noteq> 13" "uchar c \<noteq> kEOF" "\<not> isspace (uchar c)" using r by (auto simp: kEOF_def isspace_def)
  show "c \<noteq> CHR 0x0A" using r by (auto simp: uchar_def)
qed

lemma read_good:
  assumes "pending s = uchar c # cs" "is_non_blank (uchar c)"
  shows "fst (getNextChar s) = uchar c" "pending (snd (getNextChar s)) = cs"
    "mTokenValue (snd (getNextChar s)) = mTokenValue s @ [c]"
proof -
  note g = getNextChar_pending[OF assms(1) good_char(3)[OF assms(2)]]
  show "fst (getNextChar s) = uchar c" "pending (snd (getNextChar s)) = cs" using g by simp_all
  show "mTokenValue (snd (getNextChar s)) = mTokenValue s @ [c]"
    using g good_char(1)[OF assms(2)] by (simp add: getNextChar_token)
qed

lemma retract_all_pending:
  "pending (retract_all s) = map schar (mTokenValue s) @ pending s \<and> mTokenValue (retract_all s) = []"
proof (induction s rule: retract_all.induct)
  case (1 p)
  show ?case
  proof (cases "mTokenValue p = []")
    case True
    then show ?thesis by (subst (1 2) retract_all.simps) simp
  next
    case False
    have r: "retract_all p = retract_all (retract p)"
      using False by (subst retract_all.simps) simp
    have p1: "pending (retract p) = schar (last (mTokenValue p)) # pending p"
      using False by (simp add: retract_def Let_def pending_def)
    have t1: "mTokenValue (retract p) = butlast (mTokenValue p)"
      using False by (simp add: retract_def Let_def)
    have "map schar (butlast (mTokenValue p)) @ [schar (last (mTokenValue p))] = map schar (mTokenValue p)"
      using False by (metis append_butlast_last_id list.simps(8,9) map_append)
    with 1[OF False] p1 t1 show ?thesis unfolding r by simp
  qed
qed

lemma do_restart_next:
  assumes "(start s1 = State_Start \<and> L = State_Float) \<or> (start s1 = State_Float \<and> L = State_Int)
           \<or> (start s1 = State_Int \<and> L = State_Value)"
  shows "\<exists>s2. do_restart s1 = Inr s2 \<and> state s2 = L \<and> start s2 = L \<and> result s2 = result s1
           \<and> mTokenValue s2 = [] \<and> pending s2 = map schar (mTokenValue s1) @ pending s1"
proof -
  have "do_restart s1 = Inr ((retract_all s1)\<lparr>m_bol := False, state := L, start := L\<rparr>)"
    using assms by (auto simp: do_restart_def restart_def State_defs)
  then show ?thesis
    by (simp add: result_retract_all retract_all_pending pending_upd)
qed

lemma schar_to_char:
  "schar (to_char x) = (if x mod 256 < 128 then x mod 256 else x mod 256 - 256)"
  by (simp add: schar_def to_char_def of_char_of)

lemma read_end:
  assumes "lexeme_end (pending s)"
  shows "\<not> is_non_blank (fst (getNextChar s))"
    and "lexeme_end (schar (to_char (fst (getNextChar s))) # pending (snd (getNextChar s)))"
proof -
  from assms have e: "pending s = [] \<or> \<not> is_non_blank (hd (pending s))" by (auto simp: lexeme_end_def)
  show nb: "\<not> is_non_blank (fst (getNextChar s))" using e by (rule getNextChar_end)
  let ?d = "fst (getNextChar s)"
  have r: "- 128 \<le> ?d \<and> ?d \<le> 255"
  proof (cases "pending s")
    case Nil
    then have "mBuffer s = []" "mData s = []" by (simp_all add: pending_def)
    then show ?thesis by (simp add: getNextChar_def stream_get_def Let_def kEOF_def)
  next
    case (Cons c cs)
    show ?thesis
    proof (cases "c = 13")
      case True
      have "?d = 10"
      proof (cases "mBuffer s")
        case Nil
        with Cons True obtain x xs where "mData s = x # xs" "uchar x = 13" by (auto simp: pending_def)
        with Nil show ?thesis
          by (simp add: getNextChar_def stream_get_def Let_def split: list.splits prod.splits)
      next
        case (Cons b bs)
        with \<open>pending s = c # cs\<close> True have "b = 13" by (simp add: pending_def)
        with Cons show ?thesis
          by (simp add: getNextChar_def stream_get_def Let_def split: list.splits prod.splits)
      qed
      then show ?thesis by simp
    next
      case False
      from getNextChar_pending[OF Cons False] assms Cons show ?thesis by (simp add: lexeme_end_def)
    qed
  qed
  have m: "?d mod 256 = (if ?d < 0 then ?d + 256 else ?d)"
    using r by presburger
  have "\<not> is_non_blank (schar (to_char ?d))"
    using nb r unfolding schar_to_char is_non_blank_iff m by (auto split: if_splits)
  moreover have "- 128 \<le> schar (to_char ?d) \<and> schar (to_char ?d) \<le> 255"
    by (auto simp: schar_to_char)
  ultimately show "lexeme_end (schar (to_char ?d) # pending (snd (getNextChar s)))"
    by (simp add: lexeme_end_def)
qed

lemma step_at:
  "state s = State_Float \<Longrightarrow> step s = step_Float (fst (getNextChar s)) (snd (getNextChar s))"
  "state s = State_Float + 1 \<Longrightarrow> step s = step_Float1 (fst (getNextChar s)) (snd (getNextChar s))"
  "state s = State_Float + 2 \<Longrightarrow> step s = step_Float2 (fst (getNextChar s)) (snd (getNextChar s))"
  "state s = State_Float + 3 \<Longrightarrow> step s = step_Float3 (fst (getNextChar s)) (snd (getNextChar s))"
  "state s = State_Float + 4 \<Longrightarrow> step s = step_Float4 (fst (getNextChar s)) (snd (getNextChar s))"
  "state s = State_Float + 5 \<Longrightarrow> step s = step_Float5 (fst (getNextChar s)) (snd (getNextChar s))"
  "state s = State_Int \<Longrightarrow> step s = step_Int (fst (getNextChar s)) (snd (getNextChar s))"
  "state s = State_Int + 1 \<Longrightarrow> step s = step_Int1 (fst (getNextChar s)) (snd (getNextChar s))"
  "state s = State_Value \<Longrightarrow> step s = step_Value (fst (getNextChar s)) (snd (getNextChar s))"
  by (simp_all add: step_split State_defs Let_def)

lemma white_or_eof: "is_white d \<or> d = kEOF \<Longrightarrow> \<not> (33 \<le> d \<and> d \<le> 126) \<or> d = 35"
  by (auto simp: is_white_def isspace_def kEOF_def)

lemma cls_Float:
  "step_Float d s1 = do_restart s1
   \<or> (33 \<le> d \<and> d \<le> 126 \<and> d \<noteq> 35 \<and> step_Float d s1 = Inr (s1\<lparr>state := State_Float + 1\<rparr>))"
  by (auto simp: step_Float_def isdigit_def)

lemma cls_Float1:
  "step_Float1 d s1 = do_restart s1
   \<or> (33 \<le> d \<and> d \<le> 126 \<and> d \<noteq> 35
        \<and> (step_Float1 d s1 = Inr (s1\<lparr>state := State_Float + 2\<rparr>)
             \<or> step_Float1 d s1 = Inr (s1\<lparr>state := State_Float + 3\<rparr>)))
   \<or> ((\<not> (33 \<le> d \<and> d \<le> 126) \<or> d = 35) \<and> step_Float1 d s1 = Inr (finish_value CIFValue_Int s1))"
  using white_or_eof[of d] by (auto simp: step_Float1_def tolower_def split: if_splits)

lemma cls_Float2:
  "step_Float2 d s1 = do_restart s1
   \<or> (33 \<le> d \<and> d \<le> 126 \<and> d \<noteq> 35 \<and> step_Float2 d s1 = Inr (s1\<lparr>state := State_Float + 3\<rparr>))
   \<or> ((\<not> (33 \<le> d \<and> d \<le> 126) \<or> d = 35) \<and> step_Float2 d s1 = Inr (finish_value CIFValue_Float s1))"
  using white_or_eof[of d] by (auto simp: step_Float2_def tolower_def split: if_splits)

lemma cls_Float3:
  "step_Float3 d s1 = do_restart s1
   \<or> (33 \<le> d \<and> d \<le> 126 \<and> d \<noteq> 35
        \<and> (step_Float3 d s1 = Inr (s1\<lparr>state := State_Float + 4\<rparr>)
             \<or> step_Float3 d s1 = Inr (s1\<lparr>state := State_Float + 5\<rparr>)))"
  by (auto simp: step_Float3_def isdigit_def)

lemma cls_Float4:
  "step_Float4 d s1 = do_restart s1
   \<or> (33 \<le> d \<and> d \<le> 126 \<and> d \<noteq> 35 \<and> step_Float4 d s1 = Inr (s1\<lparr>state := State_Float + 5\<rparr>))"
  by (auto simp: step_Float4_def isdigit_def)

lemma cls_Float5:
  "step_Float5 d s1 = do_restart s1
   \<or> ((\<not> (33 \<le> d \<and> d \<le> 126) \<or> d = 35) \<and> step_Float5 d s1 = Inr (finish_value CIFValue_Float s1))"
  using white_or_eof[of d] by (auto simp: step_Float5_def)

lemma cls_Int:
  "step_Int d s1 = do_restart s1
   \<or> (33 \<le> d \<and> d \<le> 126 \<and> d \<noteq> 35 \<and> step_Int d s1 = Inr (s1\<lparr>state := State_Int + 1\<rparr>))"
  by (auto simp: step_Int_def isdigit_def)

lemma cls_Int1:
  "step_Int1 d s1 = do_restart s1
   \<or> ((\<not> (33 \<le> d \<and> d \<le> 126) \<or> d = 35) \<and> step_Int1 d s1 = Inr (finish_value CIFValue_Int s1))"
  using white_or_eof[of d] by (auto simp: step_Int1_def)

lemma level_step:
  assumes "(L = State_Float \<and> state s \<in> {State_Float, State_Float + 1, State_Float + 2,
               State_Float + 3, State_Float + 4, State_Float + 5})
           \<or> (L = State_Int \<and> state s \<in> {State_Int, State_Int + 1})"
  shows "step s = do_restart (snd (getNextChar s))
       \<or> (33 \<le> fst (getNextChar s) \<and> fst (getNextChar s) \<le> 126 \<and> fst (getNextChar s) \<noteq> 35
            \<and> (\<exists>x. step s = Inr ((snd (getNextChar s))\<lparr>state := x\<rparr>)
                 \<and> ((L = State_Float \<and> x \<in> {State_Float, State_Float + 1, State_Float + 2,
                         State_Float + 3, State_Float + 4, State_Float + 5})
                      \<or> (L = State_Int \<and> x \<in> {State_Int, State_Int + 1}))))
       \<or> ((\<not> (33 \<le> fst (getNextChar s) \<and> fst (getNextChar s) \<le> 126) \<or> fst (getNextChar s) = 35)
            \<and> (\<exists>t. step s = Inr (finish_value t (snd (getNextChar s)))))"
proof -
  let ?d = "fst (getNextChar s)" and ?s1 = "snd (getNextChar s)"
  from assms consider
      (f0) "L = State_Float" "state s = State_Float" | (f1) "L = State_Float" "state s = State_Float + 1"
    | (f2) "L = State_Float" "state s = State_Float + 2" | (f3) "L = State_Float" "state s = State_Float + 3"
    | (f4) "L = State_Float" "state s = State_Float + 4" | (f5) "L = State_Float" "state s = State_Float + 5"
    | (i0) "L = State_Int" "state s = State_Int" | (i1) "L = State_Int" "state s = State_Int + 1"
    by auto
  then show ?thesis
  proof cases
    case f0
    with cls_Float[of ?d ?s1] show ?thesis unfolding step_at(1)[OF f0(2)] by auto
  next
    case f1
    with cls_Float1[of ?d ?s1] show ?thesis unfolding step_at(2)[OF f1(2)] by auto
  next
    case f2
    with cls_Float2[of ?d ?s1] show ?thesis unfolding step_at(3)[OF f2(2)] by auto
  next
    case f3
    with cls_Float3[of ?d ?s1] show ?thesis unfolding step_at(4)[OF f3(2)] by auto
  next
    case f4
    with cls_Float4[of ?d ?s1] show ?thesis unfolding step_at(5)[OF f4(2)] by auto
  next
    case f5
    with cls_Float5[of ?d ?s1] show ?thesis unfolding step_at(6)[OF f5(2)] by auto
  next
    case i0
    with cls_Int[of ?d ?s1] show ?thesis unfolding step_at(7)[OF i0(2)] by auto
  next
    case i1
    with cls_Int1[of ?d ?s1] show ?thesis unfolding step_at(8)[OF i1(2)] by auto
  qed
qed

lemma good_map: "\<forall>c \<in> set xs. is_non_blank (uchar c) \<Longrightarrow> map schar xs = map uchar xs"
  by (induction xs) (simp_all add: good_char(2))

lemma scan_level:
  assumes "(L = State_Float \<and> N = State_Int) \<or> (L = State_Int \<and> N = State_Value)"
    and "(L = State_Float \<and> state s \<in> {State_Float, State_Float + 1, State_Float + 2,
               State_Float + 3, State_Float + 4, State_Float + 5})
           \<or> (L = State_Int \<and> state s \<in> {State_Int, State_Int + 1})"
    and "start s = L" "result s = CIFToken_Unknown"
    and "pending s = map uchar v @ tail"
    and "\<forall>c \<in> set (mTokenValue s @ v). is_non_blank (uchar c) \<and> c \<noteq> CHR ''#''"
    and "lexeme_end tail"
  shows "(\<exists>s'. token_loop s = Some (Inr s') \<and> result s' = CIFToken_Value
              \<and> mTokenValue s' = mTokenValue s @ v)
       \<or> (\<exists>s2 tail2. token_loop s = token_loop s2 \<and> state s2 = N \<and> start s2 = N
              \<and> result s2 = CIFToken_Unknown \<and> mTokenValue s2 = []
              \<and> pending s2 = map uchar (mTokenValue s @ v) @ tail2 \<and> lexeme_end tail2)"
  using assms(2-)
proof (induction v arbitrary: s)
  case Nil
  let ?d = "fst (getNextChar s)" and ?s1 = "snd (getNextChar s)"
  from Nil.prems(4,6) have le: "lexeme_end (pending s)" by simp
  note re = read_end[OF le]
  have tok1: "mTokenValue ?s1 = mTokenValue s @ [to_char ?d]" by (rule getNextChar_token)
  have f1: "start ?s1 = L" "result ?s1 = CIFToken_Unknown"
    using Nil.prems(2,3) by (simp_all add: getNextChar_fields)
  have gm: "map schar (mTokenValue s) = map uchar (mTokenValue s)"
    using Nil.prems(5) by (intro good_map) simp
  from level_step[OF Nil.prems(1)] re(1) consider
      (restart) "step s = do_restart ?s1"
    | (finish) t where "step s = Inr (finish_value t ?s1)"
    by (auto simp: is_non_blank_iff)
  then show ?case
  proof cases
    case restart
    from assms(1) f1(1) have "(start ?s1 = State_Start \<and> N = State_Float) \<or> (start ?s1 = State_Float \<and> N = State_Int)
           \<or> (start ?s1 = State_Int \<and> N = State_Value)" by auto
    from do_restart_next[OF this] obtain s2 where s2:
      "do_restart ?s1 = Inr s2" "state s2 = N" "start s2 = N" "result s2 = result ?s1"
      "mTokenValue s2 = []" "pending s2 = map schar (mTokenValue ?s1) @ pending ?s1"
      by blast
    have p2: "pending s2 = map uchar (mTokenValue s @ []) @ (schar (to_char ?d) # pending ?s1)"
      using s2(6) tok1 gm by simp
    have tl: "token_loop s = token_loop s2"
      using token_loop_step[OF Nil.prems(3)] restart s2(1) by simp
    have r2: "result s2 = CIFToken_Unknown" using s2(4) f1(2) by simp
    show ?thesis
      by (rule disjI2, rule exI[of _ s2], rule exI[of _ "schar (to_char ?d) # pending ?s1"],
          intro conjI) (rule tl s2(2) s2(3) r2 s2(5) p2 re(2))+
  next
    case finish
    let ?s' = "finish_value t ?s1"
    have r: "result ?s' = CIFToken_Value" by (simp add: finish_value_def)
    have t: "mTokenValue ?s' = mTokenValue s @ []" by (simp add: finish_value_token)
    have "token_loop s = token_loop ?s'" using token_loop_step[OF Nil.prems(3) finish] .
    also have "\<dots> = Some (Inr ?s')" using r by (simp add: token_loop_done)
    finally show ?thesis using r t by blast
  qed
next
  case (Cons c v)
  let ?d = "fst (getNextChar s)" and ?s1 = "snd (getNextChar s)"
  from Cons.prems(5) have gc: "is_non_blank (uchar c)" "c \<noteq> CHR ''#''" by simp_all
  from Cons.prems(4) have p: "pending s = uchar c # (map uchar v @ tail)" by simp
  note rg = read_good[OF p gc(1)]
  have c35: "uchar c \<noteq> 35"
  proof
    assume "uchar c = 35"
    then have "c = to_char 35" by (simp add: uchar_eq_iff)
    with gc(2) show False by (simp add: to_char_def char_of_def)
  qed
  have f1: "start ?s1 = L" "result ?s1 = CIFToken_Unknown"
    using Cons.prems(2,3) by (simp_all add: getNextChar_fields)
  have gm: "map schar (mTokenValue s @ [c]) = map uchar (mTokenValue s @ [c])"
    using Cons.prems(5) by (intro good_map) simp
  from level_step[OF Cons.prems(1)] gc(1) c35 rg(1) consider
      (restart) "step s = do_restart ?s1"
    | (continue) x where "step s = Inr (?s1\<lparr>state := x\<rparr>)"
        "(L = State_Float \<and> x \<in> {State_Float, State_Float + 1, State_Float + 2,
                         State_Float + 3, State_Float + 4, State_Float + 5})
                      \<or> (L = State_Int \<and> x \<in> {State_Int, State_Int + 1})"
    by (auto simp: is_non_blank_iff)
  then show ?case
  proof cases
    case restart
    from assms(1) f1(1) have "(start ?s1 = State_Start \<and> N = State_Float) \<or> (start ?s1 = State_Float \<and> N = State_Int)
           \<or> (start ?s1 = State_Int \<and> N = State_Value)" by auto
    from do_restart_next[OF this] obtain s2 where s2:
      "do_restart ?s1 = Inr s2" "state s2 = N" "start s2 = N" "result s2 = result ?s1"
      "mTokenValue s2 = []" "pending s2 = map schar (mTokenValue ?s1) @ pending ?s1"
      by blast
    have p2: "pending s2 = map uchar (mTokenValue s @ c # v) @ tail"
      using s2(6) rg(2,3) gm by simp
    have tl: "token_loop s = token_loop s2"
      using token_loop_step[OF Cons.prems(3)] restart s2(1) by simp
    have r2: "result s2 = CIFToken_Unknown" using s2(4) f1(2) by simp
    show ?thesis
      by (rule disjI2, rule exI[of _ s2], rule exI[of _ tail], intro conjI)
         (rule tl s2(2) s2(3) r2 s2(5) p2 Cons.prems(6))+
  next
    case continue
    let ?s' = "?s1\<lparr>state := x\<rparr>"
    have q1: "(L = State_Float \<and> state ?s' \<in> {State_Float, State_Float + 1, State_Float + 2,
               State_Float + 3, State_Float + 4, State_Float + 5})
           \<or> (L = State_Int \<and> state ?s' \<in> {State_Int, State_Int + 1})"
      using continue(2) by simp
    have q2: "start ?s' = L" "result ?s' = CIFToken_Unknown" using f1 by simp_all
    have q3: "pending ?s' = map uchar v @ tail" using rg(2) by (simp add: pending_upd)
    have t': "mTokenValue ?s' = mTokenValue s @ [c]" using rg(3) by simp
    have q4: "\<forall>c \<in> set (mTokenValue ?s' @ v). is_non_blank (uchar c) \<and> c \<noteq> CHR ''#''"
      using Cons.prems(5) t' by simp
    have tl: "token_loop s = token_loop ?s'" using token_loop_step[OF Cons.prems(3) continue(1)] .
    from Cons.IH[OF q1 q2 q3 q4 Cons.prems(6)] show ?thesis
      unfolding tl t' by simp
  qed
qed

lemma take_same_length: "length (take k w) = n \<Longrightarrow> take k w = take n w"
  by (metis append_eq_conv_conj append_take_drop_id length_take take_all_iff min.absorb1 min.absorb2 nat_le_linear take_take)

lemma scan_value:
  assumes "state s = State_Value" "result s = CIFToken_Unknown"
    and "pending s = map uchar v @ tail"
    and "\<forall>c \<in> set (mTokenValue s @ v). is_non_blank (uchar c)"
    and "toLowerCopy (take 5 (mTokenValue s @ v)) \<notin> {''stop_'', ''loop_'', ''data_'', ''save_''}"
    and "toLowerCopy (take 7 (mTokenValue s @ v)) \<noteq> ''global_''"
    and "lexeme_end tail"
  shows "\<exists>s'. token_loop s = Some (Inr s') \<and> result s' = CIFToken_Value
           \<and> mTokenValue s' = (if mTokenValue s @ v = ''?'' then [] else mTokenValue s @ v)
           \<and> mTokenType s' = (if mTokenValue s @ v = ''.'' then CIFValue_Inapplicable
                               else if mTokenValue s @ v = ''?'' then CIFValue_Unknown
                               else mTokenType s)"
  using assms
proof (induction v arbitrary: s)
  case Nil
  from Nil.prems(3,7) have le: "lexeme_end (pending s)" by simp
  from value_completion_step[OF Nil.prems(1,2) read_end(1)[OF le]] obtain s' where s':
    "step s = Inr s'" "result s' = CIFToken_Value"
    "mTokenValue s' = (if mTokenValue s = ''?'' then [] else mTokenValue s)"
    "mTokenType s' = (if mTokenValue s = ''.'' then CIFValue_Inapplicable
                               else if mTokenValue s = ''?'' then CIFValue_Unknown
                               else mTokenType s)"
    by blast
  have "token_loop s = token_loop s'" using token_loop_step[OF Nil.prems(2) s'(1)] .
  also have "\<dots> = Some (Inr s')" using s'(2) by (simp add: token_loop_done)
  finally show ?case using s'(2,3,4) by simp
next
  case (Cons c v)
  let ?d = "fst (getNextChar s)" and ?s1 = "snd (getNextChar s)"
  let ?w = "mTokenValue s @ c # v"
  from Cons.prems(4) have gc: "is_non_blank (uchar c)" by simp
  from Cons.prems(3) have p: "pending s = uchar c # (map uchar v @ tail)" by simp
  note rg = read_good[OF p gc]
  have f1: "state ?s1 = State_Value" "result ?s1 = CIFToken_Unknown" "mTokenType ?s1 = mTokenType s"
    using Cons.prems(1,2) by (simp_all add: getNextChar_fields)
  have pre: "mTokenValue ?s1 = take (Suc (length (mTokenValue s))) ?w"
    using rg(3) by simp
  have nr: "toLowerCopy (mTokenValue ?s1) \<notin> {''global_'', ''stop_'', ''loop_'', ''data_'', ''save_''}"
  proof
    assume a: "toLowerCopy (mTokenValue ?s1) \<in> {''global_'', ''stop_'', ''loop_'', ''data_'', ''save_''}"
    have len: "length (toLowerCopy (mTokenValue ?s1)) = length (take (Suc (length (mTokenValue s))) ?w)"
      unfolding pre by (simp add: toLowerCopy_def)
    from a consider (g) "toLowerCopy (mTokenValue ?s1) = ''global_''"
      | (o) "toLowerCopy (mTokenValue ?s1) \<in> {''stop_'', ''loop_'', ''data_'', ''save_''}" by auto
    then show False
    proof cases
      case g
      with len have "length (take (Suc (length (mTokenValue s))) ?w) = 7" by simp
      from take_same_length[OF this] g pre Cons.prems(6) show False by simp
    next
      case o
      with len have "length (take (Suc (length (mTokenValue s))) ?w) = 5" by auto
      from take_same_length[OF this] o pre Cons.prems(5) show False by simp
    qed
  qed
  have st: "step s = Inr ?s1"
    unfolding step_at(9)[OF Cons.prems(1)]
    using nr f1(2) gc rg(1) by (auto simp: step_Value_def step_Value_tail_def Let_def)
  have tl: "token_loop s = token_loop ?s1" using token_loop_step[OF Cons.prems(2) st] .
  have q3: "pending ?s1 = map uchar v @ tail" using rg(2) .
  have t': "mTokenValue ?s1 @ v = ?w" using rg(3) by simp
  have q4: "\<forall>c \<in> set (mTokenValue ?s1 @ v). is_non_blank (uchar c)"
    unfolding t' using Cons.prems(4) by simp
  have q5: "toLowerCopy (take 5 (mTokenValue ?s1 @ v)) \<notin> {''stop_'', ''loop_'', ''data_'', ''save_''}"
    unfolding t' using Cons.prems(5) .
  have q6: "toLowerCopy (take 7 (mTokenValue ?s1 @ v)) \<noteq> ''global_''"
    unfolding t' using Cons.prems(6) .
  from Cons.IH[OF f1(1,2) q3 q4 q5 q6 Cons.prems(7)] show ?case
    unfolding tl t' f1(3) .
qed

lemma start_to_float:
  assumes "state s0 = State_Start" "start s0 = State_Start" "result s0 = CIFToken_Unknown"
    and "mTokenValue s0 = []" "pending s0 = uchar c # cs" "is_non_blank (uchar c)"
    and "c \<notin> {CHR ''_'', CHR ''#'', CHR 0x27, CHR 0x22, CHR '';''}"
  shows "\<exists>s2. token_loop s0 = token_loop s2 \<and> state s2 = State_Float \<and> start s2 = State_Float
           \<and> result s2 = CIFToken_Unknown \<and> mTokenValue s2 = [] \<and> pending s2 = uchar c # cs"
proof -
  let ?s1 = "snd (getNextChar s0)"
  note rg = read_good[OF assms(5,6)]
  have ne: "uchar c \<noteq> 95" "uchar c \<noteq> 35" "uchar c \<noteq> 39" "uchar c \<noteq> 34" "uchar c \<noteq> 59"
    using assms(7) by (auto simp: uchar_eq_iff to_char_def char_of_def)
  have r: "33 \<le> uchar c" using assms(6) by (simp add: is_non_blank_iff)
  have f1: "start ?s1 = State_Start" "result ?s1 = CIFToken_Unknown"
    using assms(2,3) by (simp_all add: getNextChar_fields)
  have "step_Start (uchar c) ?s1 = do_restart ?s1"
    using ne r by (auto simp: step_Start_def kEOF_def)
  then have st: "step s0 = do_restart ?s1"
    using assms(1) rg(1) by (simp add: step_split State_defs Let_def)
  have "(start ?s1 = State_Start \<and> State_Float = State_Float) \<or> (start ?s1 = State_Float \<and> State_Float = State_Int)
           \<or> (start ?s1 = State_Int \<and> State_Float = State_Value)" using f1(1) by simp
  from do_restart_next[OF this] obtain s2 where s2:
    "do_restart ?s1 = Inr s2" "state s2 = State_Float" "start s2 = State_Float" "result s2 = result ?s1"
    "mTokenValue s2 = []" "pending s2 = map schar (mTokenValue ?s1) @ pending ?s1"
    by blast
  have p2: "pending s2 = uchar c # cs"
    using s2(6) rg(2,3) assms(4) good_char(2)[OF assms(6)] by simp
  have tl: "token_loop s0 = token_loop s2"
    using token_loop_step[OF assms(3)] st s2(1) by simp
  have r2: "result s2 = CIFToken_Unknown" using s2(4) f1(2) by simp
  show ?thesis
    by (rule exI[of _ s2], intro conjI) (rule tl s2(2) s2(3) r2 s2(5) p2)+
qed

lemma lexeme_scan:
  assumes "set ws \<subseteq> {9, 10, 32}" "pending p = ws @ map uchar w @ rest" "lexeme_end rest"
    and "w \<noteq> []" "w \<noteq> ''?''" "w \<noteq> ''.''"
    and "\<forall>c \<in> set w. is_non_blank (uchar c) \<and> c \<noteq> CHR ''#''"
    and "hd w \<notin> {CHR ''_'', CHR 0x27, CHR 0x22, CHR '';''}"
    and "toLowerCopy (take 5 w) \<notin> {''stop_'', ''loop_'', ''data_'', ''save_''}"
    and "toLowerCopy (take 7 w) \<noteq> ''global_''"
  shows "\<exists>s'. get_next_token p = Some (Inr s') \<and> result s' = CIFToken_Value \<and> mTokenValue s' = w"
proof -
  obtain c v where w: "w = c # v" using assms(4) by (cases w) auto
  from assms(7) w have gc: "is_non_blank (uchar c)" "c \<noteq> CHR ''#''" by simp_all
  then have rc: "33 \<le> uchar c \<and> uchar c \<le> 126" by (simp add: is_non_blank_iff)
  have p: "pending p = ws @ uchar c # (map uchar v @ rest)" using assms(2) w by simp
  from skip_blanks[OF p assms(1) rc] obtain s0 where s0:
    "get_next_token p = token_loop s0" "state s0 = State_Start" "start s0 = State_Start"
    "result s0 = CIFToken_Unknown" "mTokenValue s0 = []" "pending s0 = uchar c # (map uchar v @ rest)"
    by blast
  have lead: "c \<notin> {CHR ''_'', CHR ''#'', CHR 0x27, CHR 0x22, CHR '';''}"
    using assms(8) w gc(2) by simp
  from start_to_float[OF s0(2-6) gc(1) lead] obtain sF where sF:
    "token_loop s0 = token_loop sF" "state sF = State_Float" "start sF = State_Float"
    "result sF = CIFToken_Unknown" "mTokenValue sF = []" "pending sF = uchar c # (map uchar v @ rest)"
    by blast
  have pF: "pending sF = map uchar w @ rest" using sF(6) w by simp
  have gF: "\<forall>c \<in> set (mTokenValue sF @ w). is_non_blank (uchar c) \<and> c \<noteq> CHR ''#''"
    using assms(7) sF(5) by simp
  have lF: "(State_Float = State_Float \<and> state sF \<in> {State_Float, State_Float + 1, State_Float + 2,
               State_Float + 3, State_Float + 4, State_Float + 5})
           \<or> (State_Float = State_Int \<and> state sF \<in> {State_Int, State_Int + 1})"
    using sF(2) by simp
  have fin: ?thesis if "token_loop sF = Some (Inr s')" "result s' = CIFToken_Value" "mTokenValue s' = w"
    for s'
    using that s0(1) sF(1) by simp
  from scan_level[OF _ lF sF(3,4) pF gF assms(3), of State_Int] consider
      (finF) s' where "token_loop sF = Some (Inr s')" "result s' = CIFToken_Value" "mTokenValue s' = w"
    | (toI) sI tI where "token_loop sF = token_loop sI" "state sI = State_Int" "start sI = State_Int"
        "result sI = CIFToken_Unknown" "mTokenValue sI = []" "pending sI = map uchar w @ tI"
        "lexeme_end tI"
    using sF(5) by auto
  then show ?thesis
  proof cases
    case finF
    then show ?thesis by (rule fin)
  next
    case toI
    have gI: "\<forall>c \<in> set (mTokenValue sI @ w). is_non_blank (uchar c) \<and> c \<noteq> CHR ''#''"
      using assms(7) toI(5) by simp
    have lI: "(State_Int = State_Float \<and> state sI \<in> {State_Float, State_Float + 1, State_Float + 2,
               State_Float + 3, State_Float + 4, State_Float + 5})
           \<or> (State_Int = State_Int \<and> state sI \<in> {State_Int, State_Int + 1})"
      using toI(2) by simp
    from scan_level[OF _ lI toI(3,4,6) gI toI(7), of State_Value] consider
        (finI) s' where "token_loop sI = Some (Inr s')" "result s' = CIFToken_Value" "mTokenValue s' = w"
      | (toV) sV tV where "token_loop sI = token_loop sV" "state sV = State_Value"
          "result sV = CIFToken_Unknown" "mTokenValue sV = []" "pending sV = map uchar w @ tV"
          "lexeme_end tV"
      using toI(5) by auto
    then show ?thesis
    proof cases
      case finI
      then show ?thesis using fin toI(1) by simp
    next
      case toV
      have g: "\<forall>c \<in> set (mTokenValue sV @ w). is_non_blank (uchar c)"
        using assms(7) toV(4) by simp
      have r5: "toLowerCopy (take 5 (mTokenValue sV @ w)) \<notin> {''stop_'', ''loop_'', ''data_'', ''save_''}"
        using assms(9) toV(4) by simp
      have r7: "toLowerCopy (take 7 (mTokenValue sV @ w)) \<noteq> ''global_''"
        using assms(10) toV(4) by simp
      from scan_value[OF toV(2,3,5) g r5 r7 toV(6)] obtain s' where
        "token_loop sV = Some (Inr s')" "result s' = CIFToken_Value" "mTokenValue s' = w"
        using toV(4) assms(5) by auto
      then show ?thesis using fin toI(1) toV(1) by simp
    qed
  qed
qed

lemma unquoted_lexeme:
  assumes "set ws \<subseteq> {9, 10, 32}" "pending p = ws @ map uchar w @ rest" "lexeme_end rest"
    and "w \<noteq> []"
    and "\<forall>c \<in> set w. is_non_blank (uchar c) \<and> c \<noteq> CHR ''#''"
    and "hd w \<notin> {CHR ''_'', CHR 0x27, CHR 0x22, CHR '';''}"
    and "toLowerCopy (take 5 w) \<notin> {''stop_'', ''loop_'', ''data_'', ''save_''}"
    and "toLowerCopy (take 7 w) \<noteq> ''global_''"
  shows "\<exists>s'. get_next_token p = Some (Inr s') \<and> result s' = CIFToken_Value
           \<and> mTokenValue s' = (if w = ''?'' then [] else w)
           \<and> (w = ''?'' \<longrightarrow> mTokenType s' = CIFValue_Unknown)
           \<and> (w = ''.'' \<longrightarrow> mTokenType s' = CIFValue_Inapplicable)"
proof -
  have e: "rest = [] \<or> \<not> is_non_blank (hd rest)" using assms(3) by (auto simp: lexeme_end_def)
  consider (q) "w = ''?''" | (d) "w = ''.''" | (o) "w \<noteq> ''?''" "w \<noteq> ''.''" by blast
  then show ?thesis
  proof cases
    case q
    have p: "pending p = ws @ 63 # rest" using assms(2) q by (simp add: uchar_def)
    from blank_then_single_char[OF p assms(1) _ e] q show ?thesis by auto
  next
    case d
    have p: "pending p = ws @ 46 # rest" using assms(2) d by (simp add: uchar_def)
    from blank_then_single_char[OF p assms(1) _ e] d show ?thesis by auto
  next
    case o
    from lexeme_scan[OF assms(1-4) o assms(5-8)] o show ?thesis by auto
  qed
qed


subsection \<open>C6: the unknown and the inapplicable value\<close>

text \<open>
  Claim C6.  Let the scanner be asked for a token when what it will read next is: blanks
  \<open>ws\<close> (spaces, tabs, newlines, possibly none), then an unquoted lexeme \<open>w\<close>, then the end
  of the input or a character that is not non-blank.  An unquoted lexeme is a non-empty
  sequence of non-blank characters without \<open>#\<close> that does not begin with \<open>_\<close>, a quote or
  \<open>;\<close> and of which no prefix is, up to case, one of the reserved words \<open>data_\<close>, \<open>loop_\<close>,
  \<open>global_\<close>, \<open>save_\<close>, \<open>stop_\<close>.  Then \<open>get_next_token\<close> returns, and it returns a \<open>Value\<close>
  token.  For the lexeme \<open>?\<close> the token has type \<open>Unknown\<close> and its text is empty; for the
  lexeme \<open>.\<close> it has type \<open>Inapplicable\<close> and its text is \<open>.\<close>; for every other lexeme the text
  of the token is the lexeme itself.
\<close>

theorem value_token_unknown_inapplicable:
  assumes "set ws \<subseteq> {9, 10, 32}"
    and "pending p = ws @ map uchar w @ rest"
    and "lexeme_end rest"
    and "w \<noteq> []"
    and "\<forall>c \<in> set w. is_non_blank (uchar c) \<and> c \<noteq> CHR ''#''"
    and "hd w \<notin> {CHR ''_'', CHR 0x27, CHR 0x22, CHR '';''}"
    and "toLowerCopy (take 5 w) \<notin> {''stop_'', ''loop_'', ''data_'', ''save_''}"
    and "toLowerCopy (take 7 w) \<noteq> ''global_''"
  shows "\<exists>s'. get_next_token p = Some (Inr s') \<and> result s' = CIFToken_Value
           \<and> mTokenValue s' = (if w = ''?'' then [] else w)
           \<and> (w = ''?'' \<longrightarrow> mTokenType s' = CIFValue_Unknown)
           \<and> (w = ''.'' \<longrightarrow> mTokenType s' = CIFValue_Inapplicable)"
  using unquoted_lexeme[OF assms] .

theorem value_token_unknown_inapplicable_witness:
  "(\<exists>s'. get_next_token ((sac_parser_init ''? x'')\<lparr>mBuffer := [32]\<rparr>) = Some (Inr s')
         \<and> result s' = CIFToken_Value \<and> mTokenValue s' = [] \<and> mTokenType s' = CIFValue_Unknown)
   \<and> (\<exists>s'. get_next_token (sac_parser_init '' .'') = Some (Inr s')
         \<and> result s' = CIFToken_Value \<and> mTokenValue s' = ''.''
         \<and> mTokenType s' = CIFValue_Inapplicable)
   \<and> (\<exists>s'. get_next_token (sac_parser_init ''  12_a x'') = Some (Inr s')
         \<and> result s' = CIFToken_Value \<and> mTokenValue s' = ''12_a'')"
proof -
  have a: "\<exists>s'. get_next_token ((sac_parser_init ''? x'')\<lparr>mBuffer := [32]\<rparr>) = Some (Inr s')
         \<and> result s' = CIFToken_Value \<and> mTokenValue s' = [] \<and> mTokenType s' = CIFValue_Unknown"
    using value_token_unknown_inapplicable[of "[32]" "(sac_parser_init ''? x'')\<lparr>mBuffer := [32]\<rparr>"
        "''?''" "[32, 120]"]
    by (simp add: pending_def sac_parser_init_def uchar_def lexeme_end_def is_non_blank_iff
          toLowerCopy_def)
  have b: "\<exists>s'. get_next_token (sac_parser_init '' .'') = Some (Inr s')
         \<and> result s' = CIFToken_Value \<and> mTokenValue s' = ''.''
         \<and> mTokenType s' = CIFValue_Inapplicable"
    using value_token_unknown_inapplicable[of "[32]" "sac_parser_init '' .''" "''.''" "[]"]
    by (simp add: pending_def sac_parser_init_def uchar_def lexeme_end_def is_non_blank_iff
          toLowerCopy_def)
  have c: "\<exists>s'. get_next_token (sac_parser_init ''  12_a x'') = Some (Inr s')
         \<and> result s' = CIFToken_Value \<and> mTokenValue s' = ''12_a''"
    using value_token_unknown_inapplicable[of "[32, 32]" "sac_parser_init ''  12_a x''"
        "''12_a''" "[32, 120]"]
    by (simp add: pending_def sac_parser_init_def uchar_def lexeme_end_def is_non_blank_iff
          toLowerCopy_def)
  from a b c show ?thesis by (intro conjI)
qed


subsection \<open>Quoted strings\<close>

lemma getNextChar_stream:
  assumes "mBuffer s = []" "mData s = x # xs" "x \<noteq> CHR 0x0D"
  shows "getNextChar s =
     (uchar x, s\<lparr>mData := xs, mTokenValue := mTokenValue s @ [x],
                  m_line_nr := (if x = CHR 0x0A then m_line_nr s + 1 else m_line_nr s)\<rparr>)"
proof -
  have a: "uchar x \<noteq> 13" using assms(3) uchar_eq_iff[of x 13] by (simp add: to_char_def char_of_def)
  have b: "uchar x = 10 \<longleftrightarrow> x = CHR 0x0A" using uchar_eq_iff[of x 10] by (simp add: to_char_def char_of_def)
  have c: "to_char (uchar x) = x" by (simp add: to_char_def uchar_def)
  show ?thesis
    using assms a b c by (auto simp add: getNextChar_def stream_get_def Let_def)
qed

lemma quote_facts:
  assumes "q = CHR 0x27 \<or> q = CHR 0x22"
  shows "q \<noteq> CHR 0x0D" "q \<noteq> CHR 0x0A" "\<not> is_white (uchar q)" "uchar q \<noteq> kEOF" "uchar q = 39 \<or> uchar q = 34"
  using assms by (auto simp: uchar_def is_white_def isspace_def kEOF_def)

lemma quoted_loop:
  assumes "result s = CIFToken_Unknown" "quoteChar s = uchar q" "q = CHR 0x27 \<or> q = CHR 0x22"
    and "mBuffer s = []" "mData s = body @ q # rest"
    and "quoted_body q aq body"
    and "state s = (if aq then State_QuotedStringQuote else State_QuotedString)"
  shows "token_loop s =
         token_loop (s\<lparr>mData := rest, mTokenValue := mTokenValue s @ body @ [q],
                        m_line_nr := m_line_nr s + of_nat (length (filter (\<lambda>x. x = CHR 0x0A) body)),
                        state := State_QuotedStringQuote\<rparr>)"
  using assms
proof (induction body arbitrary: s aq)
  case Nil
  note qf = quote_facts[OF Nil(3)]
  have g: "getNextChar s = (uchar q, s\<lparr>mData := rest, mTokenValue := mTokenValue s @ [q],
                  m_line_nr := (if q = CHR 0x0A then m_line_nr s + 1 else m_line_nr s)\<rparr>)"
    using Nil qf by (intro getNextChar_stream) simp_all
  have "step s = Inr (s\<lparr>mData := rest, mTokenValue := mTokenValue s @ [q], state := State_QuotedStringQuote\<rparr>)"
    using Nil(1,2,7) qf g
    by (cases aq) (simp_all add: step_split State_defs step_QuotedString_def step_QuotedStringQuote_def)
  then show ?case
    using Nil(1) by (simp add: token_loop_step)
next
  case (Cons x xs)
  note qf = quote_facts[OF Cons(4)]
  have x: "x \<noteq> CHR 0x0D" "aq \<longrightarrow> x = q \<or> (is_any_print (uchar x) \<and> \<not> is_white (uchar x))"
       "quoted_body q (x = q) xs"
    using Cons(7) by simp_all
  define s1 where "s1 = s\<lparr>mData := xs @ q # rest, mTokenValue := mTokenValue s @ [x],
                  m_line_nr := (if x = CHR 0x0A then m_line_nr s + 1 else m_line_nr s),
                  state := (if x = q then State_QuotedStringQuote else State_QuotedString)\<rparr>"
  have g: "getNextChar s = (uchar x, s\<lparr>mData := xs @ q # rest, mTokenValue := mTokenValue s @ [x],
                  m_line_nr := (if x = CHR 0x0A then m_line_nr s + 1 else m_line_nr s)\<rparr>)"
    using Cons(5,6) x(1) by (intro getNextChar_stream) simp_all
  have ne: "uchar x \<noteq> kEOF" using uchar_range[of x] by (simp add: kEOF_def)
  have eqq: "uchar x = uchar q \<longleftrightarrow> x = q" by (simp add: uchar_def)
  have st: "step s = Inr s1"
  proof (cases aq)
    case True
    then show ?thesis
      using Cons(2,3,8) x(2) qf g ne eqq
      by (auto simp add: step_split State_defs step_QuotedStringQuote_def s1_def)
  next
    case False
    then show ?thesis
      using Cons(2,3,8) g ne eqq
      by (auto simp add: step_split State_defs step_QuotedString_def s1_def)
  qed
  have ih: "token_loop s1 =
         token_loop (s1\<lparr>mData := rest, mTokenValue := mTokenValue s1 @ xs @ [q],
                        m_line_nr := m_line_nr s1 + of_nat (length (filter (\<lambda>x. x = CHR 0x0A) xs)),
                        state := State_QuotedStringQuote\<rparr>)"
    using Cons(2,3,4,5) x(3)
    by (intro Cons.IH[where aq = "x = q"]) (simp_all add: s1_def)
  have "token_loop s = token_loop s1"
    using Cons(2) st by (rule token_loop_step)
  also note ih
  finally show ?case
    by (simp add: s1_def add.assoc)
qed

lemma quoted_finish:
  assumes "result s = CIFToken_Unknown" "state s = State_QuotedStringQuote"
    and "is_white (fst (getNextChar s))" "mTokenValue s = q # body @ [q']"
  shows "\<exists>t. step s = Inr t \<and> result t = CIFToken_Value \<and> mTokenType t = CIFValue_String
             \<and> mTokenValue t = body"
proof -
  have l: "size_t_sub (Suc (Suc (length body))) 2 = length body"
    by (simp add: size_t_sub_def)
  show ?thesis
    using assms l
    by (simp add: step_split State_defs step_QuotedStringQuote_def Let_def retract_getNextChar
                  result_retract substr_def)
qed

lemma getNextChar_white_stream:
  assumes "mBuffer s = []" "mData s = c # rest" "is_white (uchar c)"
  shows "is_white (fst (getNextChar s))"
  using assms by (auto simp: getNextChar_def stream_get_def Let_def is_white_def isspace_def split: prod.splits)

lemma quoted_string_scan:
  assumes q: "q = CHR 0x27 \<or> q = CHR 0x22"
    and buf: "mBuffer p = []" and inp: "mData p = q # body @ q # c # rest"
    and body: "quoted_body q False body" and c: "is_white (uchar c)"
  shows "\<exists>t. get_next_token p = Some (Inr t) \<and> result t = CIFToken_Value
            \<and> mTokenType t = CIFValue_String \<and> mTokenValue t = body"
proof -
  note qf = quote_facts[OF q]
  define s0 where "s0 = start_token p"
  define s1 where "s1 = s0\<lparr>mData := body @ q # c # rest, mTokenValue := [q],
                         quoteChar := uchar q, state := State_QuotedString\<rparr>"
  define s2 where "s2 = s1\<lparr>mData := c # rest, mTokenValue := mTokenValue s1 @ body @ [q],
                        m_line_nr := m_line_nr s1 + of_nat (length (filter (\<lambda>x. x = CHR 0x0A) body)),
                        state := State_QuotedStringQuote\<rparr>"
  have f0: "state s0 = State_Start" "result s0 = CIFToken_Unknown" "mTokenValue s0 = []"
      "m_bol s0 = False" "mBuffer s0 = []" "mData s0 = q # body @ q # c # rest"
    using buf inp by (simp_all add: s0_def start_token_fields) (simp_all add: start_token_def sac_parser.defs lexer.defs)
  have g: "getNextChar s0 = (uchar q, s0\<lparr>mData := body @ q # c # rest, mTokenValue := mTokenValue s0 @ [q],
                  m_line_nr := (if q = CHR 0x0A then m_line_nr s0 + 1 else m_line_nr s0)\<rparr>)"
    using f0 qf by (intro getNextChar_stream) simp_all
  have st0: "step s0 = Inr s1"
    using f0 qf g by (auto simp: step_split step_Start_def State_defs s1_def kEOF_def)
  have l1: "token_loop s1 = token_loop s2"
    unfolding s2_def
    using f0 q body by (intro quoted_loop[where aq = False]) (simp_all add: s1_def)
  have w: "is_white (fst (getNextChar s2))"
    using f0 c by (intro getNextChar_white_stream[where c = c and rest = rest]) (simp_all add: s2_def s1_def)
  have "\<exists>t. step s2 = Inr t \<and> result t = CIFToken_Value \<and> mTokenType t = CIFValue_String
             \<and> mTokenValue t = body"
    using f0 w by (intro quoted_finish[where q = q and q' = q]) (simp_all add: s2_def s1_def)
  then obtain t where t: "step s2 = Inr t" "result t = CIFToken_Value" "mTokenType t = CIFValue_String"
      "mTokenValue t = body"
    by blast
  have r2: "result s2 = CIFToken_Unknown" using f0 by (simp add: s2_def s1_def)
  have "get_next_token p = token_loop s0" by (simp add: get_next_token_def s0_def)
  also have "\<dots> = token_loop s1" using f0(2) st0 by (rule token_loop_step)
  also note l1
  also have "token_loop s2 = token_loop t" using r2 t(1) by (rule token_loop_step)
  also have "\<dots> = Some (Inr t)" using t(2) by (simp add: token_loop_done)
  finally show ?thesis using t by blast
qed


lemma quoted_closes_only_after_white:
  assumes "result s = CIFToken_Unknown" "state s = State_QuotedString \<or> state s = State_QuotedStringQuote"
    and "step s = Inr t" "result t \<noteq> CIFToken_Unknown"
  shows "state s = State_QuotedStringQuote \<and> is_white (fst (getNextChar s))
         \<and> result t = CIFToken_Value \<and> mTokenType t = CIFValue_String"
  using assms
  by (auto simp: step_split State_defs step_QuotedString_def step_QuotedStringQuote_def Let_def
       getNextChar_fields result_retract split: if_splits)

lemma quoted_continues:
  assumes "result s = CIFToken_Unknown" "state s = State_QuotedStringQuote"
    and "\<not> is_white (fst (getNextChar s))"
    and "fst (getNextChar s) = quoteChar s \<or> is_any_print (fst (getNextChar s))"
  shows "\<exists>t. step s = Inr t \<and> result t = CIFToken_Unknown
           \<and> (state t = State_QuotedString \<or> state t = State_QuotedStringQuote)
           \<and> mTokenValue t = mTokenValue s @ [to_char (fst (getNextChar s))]"
  using assms
  by (auto simp: step_split State_defs step_QuotedStringQuote_def Let_def
       getNextChar_fields getNextChar_token)

lemma quoted_rejects:
  assumes "state s = State_QuotedStringQuote"
    and "\<not> is_white (fst (getNextChar s))"
    and "fst (getNextChar s) \<noteq> quoteChar s" "\<not> is_any_print (fst (getNextChar s))"
  shows "\<exists>e. step s = Inl e"
  using assms
  by (auto simp: step_split State_defs step_QuotedStringQuote_def Let_def
       getNextChar_fields getNextChar_token)


subsection \<open>C7: where a quoted string ends\<close>

text \<open>
  Claim C7 as stated fails: a quoted string also ends when the matching quote is followed by
  \<open>#\<close>, which \<open>is_white\<close> accepts although it is not white space.  Here the scanner
  returns the string \<open>a\<close> for the input \<^verbatim>\<open>'a'#x\<close>.
\<close>

theorem quoted_string_closed_by_hash:
  "\<not> isspace 35 \<and>
   get_next_token (sac_parser_init [CHR 0x27, CHR ''a'', CHR 0x27, CHR ''#'', CHR ''x'']) =
     Some (Inr \<lparr> mData = ''x'', m_validate = True, m_line_nr = 1, m_bol = False,
                 m_lookahead = CIFToken_Unknown, mTokenValue = ''a'', mTokenType = CIFValue_String,
                 mBuffer = [35], result = CIFToken_Value, quoteChar = 39,
                 state = State_QuotedStringQuote, start = State_Start \<rparr>)"
  by code_simp

text \<open>
  Claim C7, amended.  A single-quoted or double-quoted string ends only when the matching
  quote is immediately followed by a character for which \<open>is_white\<close> holds, that is white
  space or \<open>#\<close>; a matching quote followed by another quote or by a printable character
  that is not white is part of the string and scanning continues; followed by anything
  else (a non-printable character or the end of the input) it is a parse error.  Read from
  the stream, a quote, a body in which every quote is followed in that way, the quote
  again and a white character give a \<open>Value\<close> token of type \<open>String\<close> whose text is the
  body.
\<close>

theorem quoted_string_termination:
  "((q = CHR 0x27 \<or> q = CHR 0x22) \<and> mBuffer p = [] \<and> mData p = q # body @ q # c # rest
      \<and> quoted_body q False body \<and> is_white (uchar c) \<longrightarrow>
      (\<exists>t. get_next_token p = Some (Inr t) \<and> result t = CIFToken_Value
           \<and> mTokenType t = CIFValue_String \<and> mTokenValue t = body))
   \<and> (result s = CIFToken_Unknown
      \<and> (state s = State_QuotedString \<or> state s = State_QuotedStringQuote)
      \<and> step s = Inr t \<and> result t \<noteq> CIFToken_Unknown \<longrightarrow>
      state s = State_QuotedStringQuote \<and> is_white (fst (getNextChar s))
      \<and> result t = CIFToken_Value \<and> mTokenType t = CIFValue_String)
   \<and> (result u = CIFToken_Unknown \<and> state u = State_QuotedStringQuote
      \<and> \<not> is_white (fst (getNextChar u))
      \<and> (fst (getNextChar u) = quoteChar u \<or> is_any_print (fst (getNextChar u))) \<longrightarrow>
      (\<exists>t. step u = Inr t \<and> result t = CIFToken_Unknown
           \<and> (state t = State_QuotedString \<or> state t = State_QuotedStringQuote)
           \<and> mTokenValue t = mTokenValue u @ [to_char (fst (getNextChar u))]))
   \<and> (state v = State_QuotedStringQuote \<and> \<not> is_white (fst (getNextChar v))
      \<and> fst (getNextChar v) \<noteq> quoteChar v \<and> \<not> is_any_print (fst (getNextChar v)) \<longrightarrow>
      (\<exists>e. step v = Inl e))"
proof (intro conjI impI)
  assume "(q = CHR 0x27 \<or> q = CHR 0x22) \<and> mBuffer p = [] \<and> mData p = q # body @ q # c # rest
      \<and> quoted_body q False body \<and> is_white (uchar c)"
  then show "\<exists>t. get_next_token p = Some (Inr t) \<and> result t = CIFToken_Value
           \<and> mTokenType t = CIFValue_String \<and> mTokenValue t = body"
    using quoted_string_scan[of q p body c rest] by blast
next
  assume a: "result s = CIFToken_Unknown
      \<and> (state s = State_QuotedString \<or> state s = State_QuotedStringQuote)
      \<and> step s = Inr t \<and> result t \<noteq> CIFToken_Unknown"
  show "state s = State_QuotedStringQuote" "is_white (fst (getNextChar s))"
       "result t = CIFToken_Value" "mTokenType t = CIFValue_String"
    using quoted_closes_only_after_white[of s t] a by blast+
next
  assume "result u = CIFToken_Unknown \<and> state u = State_QuotedStringQuote
      \<and> \<not> is_white (fst (getNextChar u))
      \<and> (fst (getNextChar u) = quoteChar u \<or> is_any_print (fst (getNextChar u)))"
  then show "\<exists>t. step u = Inr t \<and> result t = CIFToken_Unknown
           \<and> (state t = State_QuotedString \<or> state t = State_QuotedStringQuote)
           \<and> mTokenValue t = mTokenValue u @ [to_char (fst (getNextChar u))]"
    using quoted_continues[of u] by blast
next
  assume "state v = State_QuotedStringQuote \<and> \<not> is_white (fst (getNextChar v))
      \<and> fst (getNextChar v) \<noteq> quoteChar v \<and> \<not> is_any_print (fst (getNextChar v))"
  then show "\<exists>e. step v = Inl e"
    using quoted_rejects[of v] by blast
qed

theorem quoted_string_termination_witness:
  "(\<exists>t. get_next_token (sac_parser_init [CHR 0x27, CHR ''i'', CHR ''t'', CHR 0x27, CHR ''s'', CHR 0x27, CHR '' '', CHR ''x'']) = Some (Inr t) \<and> result t = CIFToken_Value
        \<and> mTokenType t = CIFValue_String \<and> mTokenValue t = [CHR ''i'', CHR ''t'', CHR 0x27, CHR ''s''])
   \<and> (\<exists>t. step ((start_token (sac_parser_init '' x''))\<lparr>mTokenValue := [CHR 0x27, CHR ''a'', CHR 0x27], quoteChar := 39, state := State_QuotedStringQuote\<rparr>) = Inr t \<and> result t = CIFToken_Value \<and> mTokenType t = CIFValue_String
        \<and> is_white (fst (getNextChar ((start_token (sac_parser_init '' x''))\<lparr>mTokenValue := [CHR 0x27, CHR ''a'', CHR 0x27], quoteChar := 39, state := State_QuotedStringQuote\<rparr>))))
   \<and> (\<exists>t. step ((start_token (sac_parser_init ''b x''))\<lparr>mTokenValue := [CHR 0x27, CHR ''a'', CHR 0x27], quoteChar := 39, state := State_QuotedStringQuote\<rparr>) = Inr t \<and> result t = CIFToken_Unknown
        \<and> mTokenValue t = [CHR 0x27, CHR ''a'', CHR 0x27, CHR ''b''])
   \<and> (\<exists>e. step ((start_token (sac_parser_init [CHR 0x01]))\<lparr>mTokenValue := [CHR 0x27, CHR ''a'', CHR 0x27], quoteChar := 39, state := State_QuotedStringQuote\<rparr>) = Inl e)"
proof -
  let ?p = "sac_parser_init [CHR 0x27, CHR ''i'', CHR ''t'', CHR 0x27, CHR ''s'', CHR 0x27, CHR '' '', CHR ''x'']"
  let ?s = "(start_token (sac_parser_init '' x''))\<lparr>mTokenValue := [CHR 0x27, CHR ''a'', CHR 0x27], quoteChar := 39, state := State_QuotedStringQuote\<rparr>"
  let ?u = "(start_token (sac_parser_init ''b x''))\<lparr>mTokenValue := [CHR 0x27, CHR ''a'', CHR 0x27], quoteChar := 39, state := State_QuotedStringQuote\<rparr>"
  let ?v = "(start_token (sac_parser_init [CHR 0x01]))\<lparr>mTokenValue := [CHR 0x27, CHR ''a'', CHR 0x27], quoteChar := 39, state := State_QuotedStringQuote\<rparr>"
  let ?t = "?s\<lparr>mData := ''x'', mBuffer := [32], result := CIFToken_Value,
                mTokenType := CIFValue_String, mTokenValue := ''a''\<rparr>"
  note defs = step_def getNextChar_def stream_get_def start_token_def sac_parser_init_def
      sac_parser.defs lexer.defs State_defs step_QuotedStringQuote_def retract_def substr_def size_t_sub_def
      Let_def uchar_def to_char_def char_of_def schar_def is_white_def isspace_def is_any_print_def kEOF_def
  have hp: "(CHR 0x27 = CHR 0x27 \<or> CHR 0x27 = CHR 0x22) \<and> mBuffer ?p = []
      \<and> mData ?p = CHR 0x27 # [CHR ''i'', CHR ''t'', CHR 0x27, CHR ''s''] @ CHR 0x27 # CHR '' '' # ''x''
      \<and> quoted_body (CHR 0x27) False [CHR ''i'', CHR ''t'', CHR 0x27, CHR ''s'']
      \<and> is_white (uchar (CHR '' ''))"
    by (simp add: sac_parser_init_def is_any_print_def is_white_def isspace_def uchar_def
          kCharTraitsTable_def kAnyPrintMask_def)
  have st: "step ?s = Inr ?t"
    by (simp add: defs)
  have hs: "result ?s = CIFToken_Unknown
      \<and> (state ?s = State_QuotedString \<or> state ?s = State_QuotedStringQuote)
      \<and> step ?s = Inr ?t \<and> result ?t \<noteq> CIFToken_Unknown"
    by (simp add: st) (simp add: start_token_def sac_parser.defs lexer.defs)
  have hu: "result ?u = CIFToken_Unknown \<and> state ?u = State_QuotedStringQuote
      \<and> \<not> is_white (fst (getNextChar ?u))
      \<and> (fst (getNextChar ?u) = quoteChar ?u \<or> is_any_print (fst (getNextChar ?u)))"
    by (simp add: defs kCharTraitsTable_def kAnyPrintMask_def)
  have cu: "fst (getNextChar ?u) = 98"
    by (simp add: defs)
  have hv: "state ?v = State_QuotedStringQuote \<and> \<not> is_white (fst (getNextChar ?v))
      \<and> fst (getNextChar ?v) \<noteq> quoteChar ?v \<and> \<not> is_any_print (fst (getNextChar ?v))"
    by (simp add: defs)
  have b: "to_char 98 = CHR ''b''" by (simp add: to_char_def char_of_def)
  show ?thesis
    using quoted_string_termination[of "CHR 0x27" ?p "[CHR ''i'', CHR ''t'', CHR 0x27, CHR ''s'']"
            "CHR '' ''" "''x''" ?s ?t ?u ?v] hp hs hu hv cu b
    by auto
qed

subsection \<open>Rows and columns\<close>

lemma same_but_columns_refl: "same_but_columns c c"
  by (simp add: same_but_columns_def)

lemma same_but_columns_trans:
  "same_but_columns a b \<Longrightarrow> same_but_columns b c \<Longrightarrow> same_but_columns a c"
  by (auto simp: same_but_columns_def)

lemma add_column_same:
  "add_column c n = Some (res, c') \<Longrightarrow> same_but_columns c c'"
  by (auto simp: add_column_def same_but_columns_def report_error_def
           split: option.splits if_splits sum.splits)

lemma create_item_for_same:
  "create_item_for c i = Some (res, c') \<Longrightarrow> same_but_columns c c'"
  by (auto simp: create_item_for_def split: option.splits sum.splits prod.splits dest: add_column_same)

lemma emplace_items_same:
  "emplace_items c r items = Some (res, c') \<Longrightarrow> same_but_columns c c'"
proof (induction items arbitrary: c r)
  case Nil
  then show ?case by (simp add: same_but_columns_refl)
next
  case (Cons i rest)
  then show ?case
    by (auto split: option.splits sum.splits prod.splits
             dest: create_item_for_same intro: same_but_columns_trans)
qed

lemma insert_impl_fail: "insert_impl c r = (Inl e, c') \<Longrightarrow> c' = c"
  by (auto simp: insert_impl_def split: sum.splits if_splits)

lemma emplace_failure:
  assumes "emplace c items = Some (Inl e, c')"
  shows "same_but_columns c c'"
  using assms
  by (auto simp: emplace_def split: option.splits sum.splits prod.splits
           dest: emplace_items_same insert_impl_fail)


lemma emplace_items_lengths:
  "emplace_items c r items = Some (Inr row, c') \<Longrightarrow>
     \<forall>i \<in> set items. length (item_value_text i) + 1 \<le> uint16_max"
proof (induction items arbitrary: c r)
  case Nil
  then show ?case by simp
next
  case (Cons i rest)
  from Cons.prems obtain iv c1 where
    1: "create_item_for c i = Some (Inr iv, c1)" and 2: "emplace_items c1 (r @ [iv]) rest = Some (Inr row, c')"
    by (auto split: option.splits sum.splits prod.splits)
  from 1 have "length (item_value_text i) + 1 \<le> uint16_max"
    by (auto simp: create_item_for_def create_item_def Let_def split: option.splits sum.splits prod.splits if_splits)
  with Cons.IH[OF 2] show ?case by simp
qed

lemma create_item_cell:
  assumes "create_item ix text = Inr iv"
  shows "unat (m_length iv) = length text \<and> text_of iv = text \<and> m_column_ix iv = ix
         \<and> m_payload iv = (if length text < kBufferSize then Local_data (text @ [CHR 0x00])
                            else Heap_data (text @ [CHR 0x00]))"
proof -
  from assms have le: "length text + 1 \<le> uint16_max"
    by (auto simp: create_item_def Let_def split: if_splits)
  then have "length text < 2 ^ 16" by (simp add: uint16_max_def)
  then have u: "unat (of_nat (length text) :: 16 word) = length text"
    by (simp add: unat_of_nat)
  show ?thesis
    using assms le u
    by (auto simp: create_item_def Let_def text_of_def payload_bytes_def split: if_splits)
qed

lemma create_item_cell_ok: "create_item ix text = Inr iv \<Longrightarrow> cell_ok iv"
  using create_item_cell[of ix "text" iv] by (auto simp: cell_ok_def)

lemma emplace_items_cells:
  "emplace_items c r items = Some (Inr row, c') \<Longrightarrow> \<forall>iv \<in> set r. cell_ok iv \<Longrightarrow>
     \<forall>iv \<in> set row. cell_ok iv"
proof (induction items arbitrary: c r)
  case Nil
  then show ?case by simp
next
  case (Cons i rest)
  from Cons.prems(1) obtain iv c1 where
    1: "create_item_for c i = Some (Inr iv, c1)" and 2: "emplace_items c1 (r @ [iv]) rest = Some (Inr row, c')"
    by (auto split: option.splits sum.splits prod.splits)
  from 1 have "cell_ok iv"
    by (auto simp: create_item_for_def split: option.splits sum.splits prod.splits dest: create_item_cell_ok)
  with Cons.prems(2) have "\<forall>x \<in> set (r @ [iv]). cell_ok x" by simp
  from Cons.IH[OF 2 this] show ?case .
qed

lemma emplace_success:
  assumes "emplace c items = Some (Inr pos, c')"
  shows "pos = length (m_rows c) \<and>
         (\<exists>r. emplace_items c [] items = Some (Inr r, c'\<lparr>m_rows := m_rows c\<rparr>)
              \<and> m_rows c' = m_rows c @ [(fresh_handle (m_rows c), r)])"
proof -
  from assms obtain r c1 where
    1: "emplace_items c [] items = Some (Inr r, c1)" and 2: "insert_impl c1 r = (Inr pos, c')"
    by (auto simp: emplace_def split: option.splits sum.splits prod.splits)
  from 2 have 3: "pos = length (m_rows c1)" "c' = c1\<lparr>m_rows := m_rows c1 @ [(fresh_handle (m_rows c1), r)]\<rparr>"
    by (auto simp: insert_impl_def split: sum.splits if_splits)
  from emplace_items_same[OF 1] have 4: "m_rows c1 = m_rows c"
    by (simp add: same_but_columns_def)
  have "c'\<lparr>m_rows := m_rows c\<rparr> = c1" using 3 4 by simp
  then show ?thesis using 1 3 4 by simp
qed


subsection \<open>C5: which values are written without quotes\<close>

text \<open>
  Claim C5.  The serializer writes a value without quotes when \<open>is_unquoted_string\<close> accepts
  it.  The values the claim names are decided as it says: \<open>stop_the_crap\<close>,
  \<open>and stop_ this too\<close> and \<open>data_dinges\<close> are rejected, \<open>boo.data_.whatever\<close> is
  accepted.  But the reserved words themselves are accepted, because the pattern asks for
  at least one character after the underscore: the value \<open>stop_\<close> contains \<open>stop_\<close> and is
  written without quotes, and the scanner reads the bare \<open>stop_\<close> back as the token
  \<open>STOP\<close>, not as a value.
\<close>

theorem reserved_word_written_unquoted:
  "is_unquoted_string ''stop_'' \<and> is_unquoted_string ''loop_'' \<and> is_unquoted_string ''global_''
   \<and> is_unquoted_string ''data_'' \<and> is_unquoted_string ''save_''
   \<and> \<not> is_unquoted_string ''stop_the_crap'' \<and> \<not> is_unquoted_string ''and stop_ this too''
   \<and> \<not> is_unquoted_string ''data_dinges'' \<and> is_unquoted_string ''boo.data_.whatever''
   \<and> get_next_token (sac_parser_init ''stop_ '') =
        Some (Inr \<lparr> mData = '' '', m_validate = True, m_line_nr = 1, m_bol = False,
                 m_lookahead = CIFToken_Unknown, mTokenValue = ''stop_'', mTokenType = CIFValue_Unknown,
                 mBuffer = [], result = CIFToken_STOP, quoteChar = 0,
                 state = State_Value, start = State_Value \<rparr>)"
  by code_simp


subsection \<open>C9: the item validator\<close>

text \<open>
  Claim C9.  For a value that is not empty and is neither \<open>?\<close> nor \<open>.\<close>, the item
  validator throws exactly when the item has a type whose pattern the value does not
  match, or the enumeration is not empty and the value is not in it, where membership
  ignores case for items of primitive type \<open>UChar\<close>.  On the empty value, \<open>?\<close> and \<open>.\<close>
  it does not throw.
\<close>

theorem item_validator_fails_iff:
  "(v \<noteq> [] \<and> v \<noteq> ''?'' \<and> v \<noteq> ''.'' \<longrightarrow>
      ((\<exists>e. item_validator_apply iv v = Inl e) \<longleftrightarrow>
       ((\<exists>t. m_type iv = Some t \<and> \<not> regex_match False (m_rx t) v)
        \<or> (m_enums iv \<noteq> []
            \<and> \<not> (if is_uchar_item iv
                   then \<exists>e \<in> set (m_enums iv). toLowerCopy e = toLowerCopy v
                   else v \<in> set (m_enums iv))))))
   \<and> (v = [] \<or> v = ''?'' \<or> v = ''.'' \<longrightarrow> item_validator_apply iv v = Inr ())"
  by (auto simp: item_validator_apply_def m_enums_count_def split: option.splits if_splits)

theorem item_validator_fails_iff_witness:
  "item_validator_apply
     \<lparr> m_tag = ''c'', m_mandatory = False,
       m_type = Some \<lparr> tv_name = ''ucode'', m_primitive_type = UChar, m_rx = Plus (Cls ''yesnoYESNO'') \<rparr>,
       m_enums = [''Yes'', ''No''], m_category = ''cat_1'' \<rparr> ''yes'' = Inr ()
   \<and> (\<exists>e. item_validator_apply
     \<lparr> m_tag = ''c'', m_mandatory = False,
       m_type = Some \<lparr> tv_name = ''ucode'', m_primitive_type = UChar, m_rx = Plus (Cls ''yesnoYESNO'') \<rparr>,
       m_enums = [''Yes'', ''No''], m_category = ''cat_1'' \<rparr> ''yyy'' = Inl e)
   \<and> (\<exists>e. item_validator_apply
     \<lparr> m_tag = ''c'', m_mandatory = False,
       m_type = Some \<lparr> tv_name = ''code'', m_primitive_type = Char, m_rx = Plus (Cls ''yesnoYESNO'') \<rparr>,
       m_enums = [''Yes'', ''No''], m_category = ''cat_1'' \<rparr> ''yes'' = Inl e)
   \<and> (\<exists>e. item_validator_apply
     \<lparr> m_tag = ''c'', m_mandatory = False,
       m_type = Some \<lparr> tv_name = ''ucode'', m_primitive_type = UChar, m_rx = Plus (Cls ''yesnoYESNO'') \<rparr>,
       m_enums = [''Yes'', ''No''], m_category = ''cat_1'' \<rparr> ''y3s'' = Inl e)
   \<and> item_validator_apply
     \<lparr> m_tag = ''c'', m_mandatory = False,
       m_type = Some \<lparr> tv_name = ''ucode'', m_primitive_type = UChar, m_rx = Plus (Cls ''yesnoYESNO'') \<rparr>,
       m_enums = [''Yes'', ''No''], m_category = ''cat_1'' \<rparr> ''?'' = Inr ()"
proof -
  let ?u = "\<lparr> m_tag = ''c'', m_mandatory = False,
       m_type = Some \<lparr> tv_name = ''ucode'', m_primitive_type = UChar, m_rx = Plus (Cls ''yesnoYESNO'') \<rparr>,
       m_enums = [''Yes'', ''No''], m_category = ''cat_1'' \<rparr>"
  let ?c = "\<lparr> m_tag = ''c'', m_mandatory = False,
       m_type = Some \<lparr> tv_name = ''code'', m_primitive_type = Char, m_rx = Plus (Cls ''yesnoYESNO'') \<rparr>,
       m_enums = [''Yes'', ''No''], m_category = ''cat_1'' \<rparr>"
  note ev = regex_match_def same_char_def is_uchar_item_def toLowerCopy_def tolower_char_def
      to_char_def uchar_def tolower_def char_of_def
  have r1: "regex_match False (Plus (Cls ''yesnoYESNO'')) ''yes''" by (simp add: ev)
  have r2: "regex_match False (Plus (Cls ''yesnoYESNO'')) ''yyy''" by (simp add: ev)
  have r3: "\<not> regex_match False (Plus (Cls ''yesnoYESNO'')) ''y3s''" by (simp add: ev)
  have "\<not> (\<exists>e. item_validator_apply ?u ''yes'' = Inl e)"
    using item_validator_fails_iff[of "''yes''" ?u] r1 by (simp add: ev)
  then have a1: "item_validator_apply ?u ''yes'' = Inr ()"
    by (cases "item_validator_apply ?u ''yes''") auto
  have a2: "\<exists>e. item_validator_apply ?u ''yyy'' = Inl e"
    using item_validator_fails_iff[of "''yyy''" ?u] r2 by (simp add: ev)
  have a3: "\<exists>e. item_validator_apply ?c ''yes'' = Inl e"
    using item_validator_fails_iff[of "''yes''" ?c] r1 by (simp add: ev)
  have a4: "\<exists>e. item_validator_apply ?u ''y3s'' = Inl e"
    using item_validator_fails_iff[of "''y3s''" ?u] r3 by (simp add: ev)
  have a5: "item_validator_apply ?u ''?'' = Inr ()"
    using item_validator_fails_iff[of "''?''" ?u] by simp
  show ?thesis using a1 a2 a3 a4 a5 by blast
qed


subsection \<open>C10: the length of a cell\<close>

text \<open>
  Claim C10.  \<open>create_item\<close> throws a runtime error when the length of the text plus one
  exceeds 65535; otherwise the cell it builds has a length field equal to the length of
  the text, reads back as the text, and holds the text inline when it is shorter than 8
  bytes and in a heap buffer otherwise.  An \<open>emplace\<close> with such a text among its items
  throws and stores no row, and every cell of a row that \<open>emplace\<close> stores has that form.
\<close>

theorem cell_length_limit:
  "(uint16_max < length txt + 1 \<longrightarrow> (\<exists>msg. create_item ix txt = Inl (Runtime_error msg)))
   \<and> (create_item ix txt = Inr iv \<longrightarrow>
        unat (m_length iv) = length txt \<and> text_of iv = txt
        \<and> m_payload iv = (if length txt < kBufferSize then Local_data (txt @ [CHR 0x00])
                           else Heap_data (txt @ [CHR 0x00])))
   \<and> (emplace c items = Some (res, c') \<and> (\<exists>i \<in> set items. uint16_max < length (item_value_text i) + 1) \<longrightarrow>
        (\<exists>e. res = Inl e) \<and> m_rows c' = m_rows c)
   \<and> (emplace d items' = Some (Inr pos, d') \<longrightarrow> (\<forall>cell \<in> set (snd (last (m_rows d'))). cell_ok cell))"
proof (intro conjI impI)
  assume "uint16_max < length txt + 1"
  then show "\<exists>msg. create_item ix txt = Inl (Runtime_error msg)"
    by (simp add: create_item_def Let_def)
next
  assume a: "create_item ix txt = Inr iv"
  show "unat (m_length iv) = length txt" "text_of iv = txt"
       "m_payload iv = (if length txt < kBufferSize then Local_data (txt @ [CHR 0x00])
                           else Heap_data (txt @ [CHR 0x00]))"
    using create_item_cell[OF a] by simp_all
next
  assume a: "emplace c items = Some (res, c') \<and> (\<exists>i \<in> set items. uint16_max < length (item_value_text i) + 1)"
  have ne: "\<exists>e. res = Inl e"
  proof (cases res)
    case (Inl e)
    then show ?thesis by simp
  next
    case (Inr p)
    with a have "emplace c items = Some (Inr p, c')" by simp
    from emplace_success[OF this] obtain r where "emplace_items c [] items = Some (Inr r, c'\<lparr>m_rows := m_rows c\<rparr>)"
      by blast
    from emplace_items_lengths[OF this] a show ?thesis by auto
  qed
  then show "\<exists>e. res = Inl e" .
  from ne a show "m_rows c' = m_rows c"
    using emplace_failure[of c items _ c'] by (auto simp: same_but_columns_def)
next
  assume a: "emplace d items' = Some (Inr pos, d')"
  from emplace_success[OF a] obtain r where
    r: "emplace_items d [] items' = Some (Inr r, d'\<lparr>m_rows := m_rows d\<rparr>)"
       "m_rows d' = m_rows d @ [(fresh_handle (m_rows d), r)]"
    by blast
  from emplace_items_cells[OF r(1)] have "\<forall>iv \<in> set r. cell_ok iv" by simp
  with r(2) show "\<forall>cell \<in> set (snd (last (m_rows d'))). cell_ok cell" by simp
qed

theorem cell_length_limit_witness:
  "(\<exists>msg. create_item 0 (replicate 65535 (CHR ''y'')) = Inl (Runtime_error msg))
   \<and> (\<exists>iv. create_item 0 ''abc'' = Inr iv \<and> unat (m_length iv) = 3 \<and> text_of iv = ''abc''
          \<and> m_payload iv = Local_data [CHR ''a'', CHR ''b'', CHR ''c'', CHR 0x00])
   \<and> (\<exists>iv. create_item 0 ''abcdefgh'' = Inr iv \<and> unat (m_length iv) = 8
          \<and> m_payload iv = Heap_data (''abcdefgh'' @ [CHR 0x00]))
   \<and> (\<exists>e c'. emplace (new_category ''foo'')
                [\<lparr> item_name = ''a'', item_value_text = replicate 65535 (CHR ''y'') \<rparr>] = Some (Inl e, c')
             \<and> m_rows c' = [])
   \<and> (\<exists>c'. emplace (new_category ''foo'') [\<lparr> item_name = ''a'', item_value_text = ''abc'' \<rparr>] = Some (Inr 0, c')
          \<and> (\<forall>cell \<in> set (snd (last (m_rows c'))). cell_ok cell))"
proof -
  let ?long = "replicate 65535 (CHR ''y'')"
  let ?c = "new_category ''foo''"
  let ?items = "[\<lparr> item_name = ''a'', item_value_text = ?long \<rparr>]"
  let ?items' = "[\<lparr> item_name = ''a'', item_value_text = ''abc'' \<rparr>]"
  note defs = emplace_def create_item_for_def add_column_def get_column_ix_def iequals_def
        create_item_def uint16_max_def kBufferSize_def Let_def new_category_def insert_impl_def key_indices_def
        text_of_def payload_bytes_def
  have h1: "uint16_max < length ?long + 1" by (simp add: uint16_max_def)
  have h2: "\<exists>iv. create_item 0 ''abc'' = Inr iv" by (simp add: create_item_def uint16_max_def)
  have h3: "\<exists>iv. create_item 0 ''abcdefgh'' = Inr iv" by (simp add: create_item_def uint16_max_def)
  have h4: "\<exists>res c'. emplace ?c ?items = Some (res, c')" by (simp add: defs)
  have h5: "\<exists>c'. emplace ?c ?items' = Some (Inr 0, c')" by (simp add: defs)
  from h2 obtain iv2 where iv2: "create_item 0 ''abc'' = Inr iv2" by blast
  from h3 obtain iv3 where iv3: "create_item 0 ''abcdefgh'' = Inr iv3" by blast
  from h4 obtain res c4 where c4: "emplace ?c ?items = Some (res, c4)" by blast
  from h5 obtain c5 where c5: "emplace ?c ?items' = Some (Inr 0, c5)" by blast
  have m0: "m_rows ?c = []" by (simp add: new_category_def)
  have a1: "\<exists>msg. create_item 0 ?long = Inl (Runtime_error msg)"
    using cell_length_limit[of ?long 0] h1 by blast
  have a2: "unat (m_length iv2) = 3 \<and> text_of iv2 = ''abc''
          \<and> m_payload iv2 = Local_data [CHR ''a'', CHR ''b'', CHR ''c'', CHR 0x00]"
    using cell_length_limit[of "''abc''" 0 iv2] iv2 by (simp add: kBufferSize_def)
  have a3: "unat (m_length iv3) = 8 \<and> m_payload iv3 = Heap_data (''abcdefgh'' @ [CHR 0x00])"
    using cell_length_limit[of "''abcdefgh''" 0 iv3] iv3 by (simp add: kBufferSize_def)
  have a4: "(\<exists>e. res = Inl e) \<and> m_rows c4 = []"
    using cell_length_limit[of _ _ _ ?c ?items res c4] c4 h1 m0 by simp
  have a5: "\<forall>cell \<in> set (snd (last (m_rows c5))). cell_ok cell"
    using cell_length_limit[of _ _ _ _ _ _ _ ?c ?items' 0 c5] c5 by blast
  show ?thesis
    using a1 a2 a3 a4 a5 iv2 iv3 c4 c5 by blast
qed


subsection \<open>Data blocks\<close>

lemma iequals_refl: "iequals a a"
  by (simp add: iequals_def)

lemma iequals_sym: "iequals a b \<Longrightarrow> iequals b a"
  by (simp add: iequals_def)

lemma iequals_trans: "iequals a b \<Longrightarrow> iequals b c \<Longrightarrow> iequals a c"
  by (simp add: iequals_def)

lemma first_match:
  assumes "\<exists>x \<in> set xs. P x"
  shows "length (takeWhile (\<lambda>x. \<not> P x) xs) < length xs
         \<and> P (xs ! length (takeWhile (\<lambda>x. \<not> P x) xs))
         \<and> (\<forall>j < length (takeWhile (\<lambda>x. \<not> P x) xs). \<not> P (xs ! j))"
  using assms
proof (induction xs)
  case Nil
  then show ?case by simp
next
  case (Cons a xs)
  show ?case
  proof (cases "P a")
    case True
    then show ?thesis by simp
  next
    case False
    with Cons.prems have "\<exists>x \<in> set xs. P x" by simp
    from Cons.IH[OF this] False show ?thesis
      by (auto simp: less_Suc_eq_0_disj)
  qed
qed

lemma no_match:
  assumes "\<not> (\<exists>x \<in> set xs. P x)"
  shows "length (takeWhile (\<lambda>x. \<not> P x) xs) = length xs"
  using assms by (simp add: takeWhile_eq_all_conv[THEN iffD2])

lemma move_to_front_mset:
  "i < length xs \<Longrightarrow> mset (xs ! i # take i xs @ drop (Suc i) xs) = mset xs"
proof -
  assume "i < length xs"
  then have "xs = take i xs @ xs ! i # drop (Suc i) xs" by (rule id_take_nth_drop)
  then have "mset xs = mset (take i xs @ xs ! i # drop (Suc i) xs)" by simp
  then show ?thesis by simp
qed

lemma datablock_emplace_existing:
  assumes "\<exists>c \<in> set (categories db). iequals name (cat_name c)"
  shows "\<exists>i < length (categories db).
           iequals name (cat_name (categories db ! i))
           \<and> (\<forall>j < i. \<not> iequals name (cat_name (categories db ! j)))
           \<and> datablock_emplace db name =
               (False, db\<lparr>categories := categories db ! i # take i (categories db) @ drop (Suc i) (categories db)\<rparr>)"
proof -
  let ?cs = "categories db"
  let ?i = "length (takeWhile (\<lambda>c. \<not> iequals name (cat_name c)) ?cs)"
  from first_match[of ?cs "\<lambda>c. iequals name (cat_name c)"] assms
  have f: "?i < length ?cs" "iequals name (cat_name (?cs ! ?i))"
          "\<forall>j < ?i. \<not> iequals name (cat_name (?cs ! j))"
    by blast+
  have e: "datablock_emplace db name =
            (False, db\<lparr>categories := ?cs ! ?i # take ?i ?cs @ drop (Suc ?i) ?cs\<rparr>)"
  proof (cases "?i = 0")
    case True
    with f(1) have "?cs ! 0 # drop (Suc 0) ?cs = ?cs"
      by (cases ?cs) auto
    with True f(1) show ?thesis
      by (simp add: datablock_emplace_def Let_def)
  next
    case False
    with f(1) show ?thesis
      by (simp add: datablock_emplace_def Let_def)
  qed
  show ?thesis
    using f e by blast
qed

lemma datablock_emplace_head:
  "\<exists>c rest. categories (snd (datablock_emplace db name)) = c # rest \<and> iequals name (cat_name c)"
proof (cases "\<exists>c \<in> set (categories db). iequals name (cat_name c)")
  case True
  from datablock_emplace_existing[OF True] show ?thesis by auto
next
  case False
  then have "length (takeWhile (\<lambda>c. \<not> iequals name (cat_name c)) (categories db)) = length (categories db)"
    by (intro no_match) simp
  then show ?thesis
    by (simp add: datablock_emplace_def Let_def set_validator_def new_category_def iequals_refl)
qed

lemma datablock_emplace_twice:
  assumes "iequals name name'"
  shows "datablock_emplace (snd (datablock_emplace db name)) name' = (False, snd (datablock_emplace db name))"
proof -
  from datablock_emplace_head[of db name] obtain c rest where
    h: "categories (snd (datablock_emplace db name)) = c # rest" "iequals name (cat_name c)"
    by blast
  have "iequals name' (cat_name c)"
    using assms h(2) iequals_sym iequals_trans by blast
  then show ?thesis
    using h(1) by (simp add: datablock_emplace_def Let_def)
qed

lemma datablock_index_existing:
  assumes "\<exists>c \<in> set (categories db). iequals (cat_name c) name"
  shows "\<exists>i < length (categories db). iequals (cat_name (categories db ! i)) name
            \<and> datablock_index db name = (i, db)"
proof -
  let ?cs = "categories db"
  from first_match[of ?cs "\<lambda>c. iequals (cat_name c) name"] assms
  show ?thesis
    by (auto simp: datablock_index_def Let_def)
qed


subsection \<open>C8: emplacing a category twice\<close>

text \<open>
  Claim C8 as stated fails in one point: \<open>datablock::emplace\<close> has no way to ask for the
  promotion or to decline it, it moves an existing category to the front on every call.
  Here a plain \<open>emplace\<close> of the second category of a block reorders the block.
\<close>

theorem datablock_emplace_always_promotes:
  "datablock_emplace \<lparr> db_name = ''TEST'', db_validator = None, categories = [new_category ''entry'', new_category ''atom_site''] \<rparr> ''atom_site'' = (False, \<lparr> db_name = ''TEST'', db_validator = None, categories = [new_category ''atom_site'', new_category ''entry''] \<rparr>)"
  by (simp add: datablock_emplace_def Let_def new_category_def iequals_def toLowerCopy_def
        tolower_char_def to_char_def uchar_def tolower_def char_of_def)

text \<open>
  Claim C8, amended.  When the block has a category whose name equals the given one
  without regard to ASCII case, \<open>emplace\<close> creates no category, reports \<open>is_new = false\<close>
  and returns \<open>begin()\<close>, and the first such category is always moved to the front of the
  list, the others keeping their order; the categories of the block and their contents are
  the same as before.  A further \<open>emplace\<close> of the name, in any case, changes nothing,
  also after an \<open>emplace\<close> that created the category.  \<open>operator[]\<close> finds an existing
  category without moving it.
\<close>

theorem datablock_emplace_existing_category:
  "((\<exists>c \<in> set (categories db). iequals name (cat_name c)) \<longrightarrow>
      (\<exists>i < length (categories db).
           iequals name (cat_name (categories db ! i))
           \<and> (\<forall>j < i. \<not> iequals name (cat_name (categories db ! j)))
           \<and> datablock_emplace db name =
               (False, db\<lparr>categories := categories db ! i # take i (categories db) @ drop (Suc i) (categories db)\<rparr>))
      \<and> mset (categories (snd (datablock_emplace db name))) = mset (categories db))
   \<and> (iequals name name' \<longrightarrow>
        datablock_emplace (snd (datablock_emplace db name)) name' = (False, snd (datablock_emplace db name)))
   \<and> ((\<exists>c \<in> set (categories db). iequals (cat_name c) name) \<longrightarrow>
        (\<exists>i < length (categories db). iequals (cat_name (categories db ! i)) name
            \<and> datablock_index db name = (i, db)))"
proof (intro conjI impI)
  assume a: "\<exists>c \<in> set (categories db). iequals name (cat_name c)"
  from datablock_emplace_existing[OF a]
  show e: "\<exists>i < length (categories db).
           iequals name (cat_name (categories db ! i))
           \<and> (\<forall>j < i. \<not> iequals name (cat_name (categories db ! j)))
           \<and> datablock_emplace db name =
               (False, db\<lparr>categories := categories db ! i # take i (categories db) @ drop (Suc i) (categories db)\<rparr>)" .
  then obtain i where "i < length (categories db)"
     "datablock_emplace db name =
               (False, db\<lparr>categories := categories db ! i # take i (categories db) @ drop (Suc i) (categories db)\<rparr>)"
    by blast
  then show "mset (categories (snd (datablock_emplace db name))) = mset (categories db)"
    using move_to_front_mset[of i "categories db"] by simp
next
  assume "iequals name name'"
  then show "datablock_emplace (snd (datablock_emplace db name)) name' = (False, snd (datablock_emplace db name))"
    by (rule datablock_emplace_twice)
next
  assume "\<exists>c \<in> set (categories db). iequals (cat_name c) name"
  then show "\<exists>i < length (categories db). iequals (cat_name (categories db ! i)) name
            \<and> datablock_index db name = (i, db)"
    by (rule datablock_index_existing)
qed

theorem datablock_emplace_existing_category_witness:
  "datablock_emplace \<lparr> db_name = ''TEST'', db_validator = None, categories = [new_category ''entry'', new_category ''atom_site''] \<rparr> ''ATOM_SITE'' = (False, \<lparr> db_name = ''TEST'', db_validator = None, categories = [new_category ''atom_site'', new_category ''entry''] \<rparr>)
   \<and> mset (categories (snd (datablock_emplace \<lparr> db_name = ''TEST'', db_validator = None, categories = [new_category ''entry'', new_category ''atom_site''] \<rparr> ''ATOM_SITE''))) = mset (categories \<lparr> db_name = ''TEST'', db_validator = None, categories = [new_category ''entry'', new_category ''atom_site''] \<rparr>)
   \<and> datablock_emplace (snd (datablock_emplace \<lparr> db_name = ''TEST'', db_validator = None, categories = [new_category ''entry'', new_category ''atom_site''] \<rparr> ''ATOM_SITE'')) ''atom_site''
       = (False, snd (datablock_emplace \<lparr> db_name = ''TEST'', db_validator = None, categories = [new_category ''entry'', new_category ''atom_site''] \<rparr> ''ATOM_SITE''))
   \<and> datablock_index \<lparr> db_name = ''TEST'', db_validator = None, categories = [new_category ''entry'', new_category ''atom_site''] \<rparr> ''Atom_Site'' = (1, \<lparr> db_name = ''TEST'', db_validator = None, categories = [new_category ''entry'', new_category ''atom_site''] \<rparr>)"
proof -
  let ?db = "\<lparr> db_name = ''TEST'', db_validator = None, categories = [new_category ''entry'', new_category ''atom_site''] \<rparr>"
  note ev = new_category_def iequals_def toLowerCopy_def tolower_char_def to_char_def uchar_def
      tolower_def char_of_def
  have h1: "\<exists>c \<in> set (categories ?db). iequals ''ATOM_SITE'' (cat_name c)"
    by (simp add: ev)
  have h2: "iequals ''ATOM_SITE'' ''atom_site''"
    by (simp add: ev)
  have h3: "\<exists>c \<in> set (categories ?db). iequals (cat_name c) ''Atom_Site''"
    by (simp add: ev)
  from datablock_emplace_existing_category[of ?db "''ATOM_SITE''" "''atom_site''"] h1 h2
  obtain i where i: "i < length (categories ?db)" "iequals ''ATOM_SITE'' (cat_name (categories ?db ! i))"
      "datablock_emplace ?db ''ATOM_SITE'' =
         (False, ?db\<lparr>categories := categories ?db ! i # take i (categories ?db) @ drop (Suc i) (categories ?db)\<rparr>)"
    and m: "mset (categories (snd (datablock_emplace ?db ''ATOM_SITE''))) = mset (categories ?db)"
    and t: "datablock_emplace (snd (datablock_emplace ?db ''ATOM_SITE'')) ''atom_site''
             = (False, snd (datablock_emplace ?db ''ATOM_SITE''))"
    by blast
  have "i = 1"
    using i(1,2) by (cases i) (simp_all add: ev)
  with i(3) have a1: "datablock_emplace ?db ''ATOM_SITE'' = (False, \<lparr> db_name = ''TEST'', db_validator = None, categories = [new_category ''atom_site'', new_category ''entry''] \<rparr>)"
    by simp
  from datablock_emplace_existing_category[of ?db "''Atom_Site''"] h3
  obtain k where k: "k < length (categories ?db)" "iequals (cat_name (categories ?db ! k)) ''Atom_Site''"
      "datablock_index ?db ''Atom_Site'' = (k, ?db)"
    by blast
  have "k = 1"
    using k(1,2) by (cases k) (simp_all add: ev)
  with k(3) have a4: "datablock_index ?db ''Atom_Site'' = (1, ?db)" by simp
  show ?thesis using a1 m t a4 by blast
qed

lemma key_indices_nonempty:
  "m_cat_validator c = Some cv \<Longrightarrow> m_keys cv \<noteq> [] \<Longrightarrow> key_indices c \<noteq> []"
  by (simp add: key_indices_def)

lemma emplace_duplicate:
  assumes "m_cat_validator c = Some cv" "m_keys cv \<noteq> []"
    and "emplace_items c [] items = Some (Inr r, c1)"
    and "\<exists>r' \<in> set (map snd (m_rows c)). key_tuple c1 r' = key_tuple c1 r"
  shows "(\<exists>e. emplace c items = Some (Inl e, c1))
         \<and> (validate_cells c1 r = Inr () \<longrightarrow> emplace c items = Some (Inl (Duplicate_key (cat_name c)), c1))"
proof -
  from emplace_items_same[OF assms(3)]
  have s: "m_rows c1 = m_rows c" "cat_name c1 = cat_name c" "m_cat_validator c1 = m_cat_validator c"
    by (simp_all add: same_but_columns_def)
  have k: "key_indices c1 \<noteq> []"
    using assms(1,2) s(3) by (intro key_indices_nonempty[of c1 cv]) simp_all
  show ?thesis
    using assms(3,4) s k
    by (auto simp: emplace_def insert_impl_def split: sum.splits)
qed


subsection \<open>C3: emplace and the primary key\<close>

text \<open>
  Claim C3.  A successful \<open>emplace\<close> puts the new row at the tail of the row list.  In a
  category whose validator configures a primary key, an \<open>emplace\<close> whose row has the key
  tuple of a row already present throws and stores nothing; when the values of the new
  row pass the item validators the error is the duplicate-key error.  Key columns of type
  \<open>UChar\<close> are compared without regard to case.
\<close>

theorem emplace_primary_key:
  "(emplace c items = Some (Inr pos, c') \<longrightarrow>
      pos = length (m_rows c)
      \<and> (\<exists>r. emplace_items c [] items = Some (Inr r, c'\<lparr>m_rows := m_rows c\<rparr>)
             \<and> m_rows c' = m_rows c @ [(fresh_handle (m_rows c), r)]))
   \<and> (m_cat_validator c = Some cv \<and> m_keys cv \<noteq> []
        \<and> emplace_items c [] items = Some (Inr r, c1)
        \<and> (\<exists>r' \<in> set (map snd (m_rows c)). key_tuple c1 r' = key_tuple c1 r) \<longrightarrow>
      (\<exists>e. emplace c items = Some (Inl e, c1)) \<and> m_rows c1 = m_rows c
      \<and> (validate_cells c1 r = Inr () \<longrightarrow>
            emplace c items = Some (Inl (Duplicate_key (cat_name c)), c1)))
   \<and> (key_indices c = [ix] \<and> column_is_uchar c ix \<longrightarrow>
        (key_tuple c r1 = key_tuple c r2 \<longleftrightarrow> iequals (row_text r1 ix) (row_text r2 ix)))"
proof -
  have p1: "emplace c items = Some (Inr pos, c') \<longrightarrow>
      pos = length (m_rows c)
      \<and> (\<exists>r. emplace_items c [] items = Some (Inr r, c'\<lparr>m_rows := m_rows c\<rparr>)
             \<and> m_rows c' = m_rows c @ [(fresh_handle (m_rows c), r)])"
    using emplace_success[of c items pos c'] by blast
  have p2: "m_cat_validator c = Some cv \<and> m_keys cv \<noteq> []
        \<and> emplace_items c [] items = Some (Inr r, c1)
        \<and> (\<exists>r' \<in> set (map snd (m_rows c)). key_tuple c1 r' = key_tuple c1 r) \<longrightarrow>
      (\<exists>e. emplace c items = Some (Inl e, c1)) \<and> m_rows c1 = m_rows c
      \<and> (validate_cells c1 r = Inr () \<longrightarrow>
            emplace c items = Some (Inl (Duplicate_key (cat_name c)), c1))"
  proof
    assume a: "m_cat_validator c = Some cv \<and> m_keys cv \<noteq> []
        \<and> emplace_items c [] items = Some (Inr r, c1)
        \<and> (\<exists>r' \<in> set (map snd (m_rows c)). key_tuple c1 r' = key_tuple c1 r)"
    then have d: "(\<exists>e. emplace c items = Some (Inl e, c1))
         \<and> (validate_cells c1 r = Inr () \<longrightarrow> emplace c items = Some (Inl (Duplicate_key (cat_name c)), c1))"
      by (intro emplace_duplicate[of c cv items r c1]) simp_all
    from a emplace_items_same[of c "[]" items "Inr r" c1] have "m_rows c1 = m_rows c"
      by (simp add: same_but_columns_def)
    with d show "(\<exists>e. emplace c items = Some (Inl e, c1)) \<and> m_rows c1 = m_rows c
      \<and> (validate_cells c1 r = Inr () \<longrightarrow>
            emplace c items = Some (Inl (Duplicate_key (cat_name c)), c1))"
      by blast
  qed
  have p3: "key_indices c = [ix] \<and> column_is_uchar c ix \<longrightarrow>
        (key_tuple c r1 = key_tuple c r2 \<longleftrightarrow> iequals (row_text r1 ix) (row_text r2 ix))"
    by (simp add: key_tuple_def iequals_def)
  show ?thesis using p1 p2 p3 by blast
qed

theorem emplace_primary_key_witness:
  "emplace uchar_key_category [\<lparr> item_name = ''id'', item_value_text = ''aap'' \<rparr>]
     = Some (Inl (Duplicate_key ''cat_1''), uchar_key_category)
   \<and> (\<exists>c'. emplace uchar_key_category [\<lparr> item_name = ''id'', item_value_text = ''noot'' \<rparr>] = Some (Inr 1, c')
          \<and> length (m_rows c') = 2)
   \<and> (\<exists>c'. emplace char_key_category [\<lparr> item_name = ''id'', item_value_text = ''aap'' \<rparr>] = Some (Inr 1, c'))
   \<and> key_tuple uchar_key_category [\<lparr> m_column_ix = 0, m_length = 3, m_payload = Local_data (''AAP'' @ [CHR 0x00]) \<rparr>]
      = key_tuple uchar_key_category [\<lparr> m_column_ix = 0, m_length = 3, m_payload = Local_data (''aap'' @ [CHR 0x00]) \<rparr>]"
proof -
  let ?c = "uchar_key_category"
  let ?cv = "\<lparr> cv_name = ''cat_1'', m_keys = [''id''], m_item_validators = [id_validator ''ucode'' UChar] \<rparr>"
  let ?aap = "[\<lparr> item_name = ''id'', item_value_text = ''aap'' \<rparr>]"
  let ?noot = "[\<lparr> item_name = ''id'', item_value_text = ''noot'' \<rparr>]"
  let ?r = "[\<lparr> m_column_ix = 0, m_length = 3, m_payload = Local_data (''aap'' @ [CHR 0x00]) \<rparr>]"
  let ?old = "[\<lparr> m_column_ix = 0, m_length = 3, m_payload = Local_data (''AAP'' @ [CHR 0x00]) \<rparr>]"
  note ev = emplace_def create_item_for_def add_column_def get_column_ix_def iequals_def
    toLowerCopy_def tolower_char_def to_char_def uchar_def tolower_def char_of_def create_item_def
    uint16_max_def kBufferSize_def Let_def insert_impl_def key_indices_def key_tuple_def
    column_is_uchar_def row_text_def text_of_def payload_bytes_def item_validator_apply_def
    regex_match_def is_uchar_item_def uchar_key_category_def char_key_category_def key_category_def
    id_validator_def m_enums_count_def line_terminator_def same_char_def
  have h1: "m_cat_validator ?c = Some ?cv" "m_keys ?cv \<noteq> []"
    by (simp_all add: uchar_key_category_def key_category_def)
  have h2: "emplace_items ?c [] ?aap = Some (Inr ?r, ?c)"
    by (simp add: ev)
  have h3: "\<exists>r' \<in> set (map snd (m_rows ?c)). key_tuple ?c r' = key_tuple ?c ?r"
    by (simp add: ev)
  have h4: "validate_cells ?c ?r = Inr ()"
    by (simp add: ev)
  have h5: "cat_name ?c = ''cat_1''"
    by (simp add: uchar_key_category_def key_category_def)
  have hyp: "m_cat_validator ?c = Some ?cv \<and> m_keys ?cv \<noteq> []
        \<and> emplace_items ?c [] ?aap = Some (Inr ?r, ?c)
        \<and> (\<exists>r' \<in> set (map snd (m_rows ?c)). key_tuple ?c r' = key_tuple ?c ?r)"
    by (intro conjI) (rule h1 h2 h3)+
  note dup = emplace_primary_key[of ?c ?aap 0 ?c ?cv ?r ?c 0 ?r ?r,
      THEN conjunct2, THEN conjunct1, THEN mp, OF hyp,
      THEN conjunct2, THEN conjunct2, THEN mp, OF h4]
  have a1: "emplace ?c ?aap = Some (Inl (Duplicate_key ''cat_1''), ?c)"
    using dup unfolding h5 .
  have "map_option fst (emplace ?c ?noot) = Some (Inr 1)"
    by (simp add: ev)
  then obtain c' where c': "emplace ?c ?noot = Some (Inr 1, c')" by auto
  have l1: "length (m_rows ?c) = 1"
    by (simp add: uchar_key_category_def key_category_def)
  note tail = emplace_primary_key[of ?c ?noot 1 c' ?cv ?r ?c 0 ?r ?r,
      THEN conjunct1, THEN mp, OF c', THEN conjunct2]
  then obtain r where "m_rows c' = m_rows ?c @ [(fresh_handle (m_rows ?c), r)]" by blast
  then have a2: "length (m_rows c') = 2"
    using l1 by simp
  have "map_option fst (emplace char_key_category ?aap) = Some (Inr 1)"
    by (simp add: ev)
  then have a3: "\<exists>c'. emplace char_key_category ?aap = Some (Inr 1, c')" by auto
  have h6: "key_indices ?c = [0] \<and> column_is_uchar ?c 0"
    by (simp add: ev)
  have h7: "iequals (row_text ?old 0) (row_text ?r 0)"
    by (simp add: ev)
  note ci = emplace_primary_key[of ?c ?aap 0 ?c ?cv ?r ?c 0 ?old ?r,
      THEN conjunct2, THEN conjunct2, THEN mp, OF h6, THEN iffD2, OF h7]
  have a2': "\<exists>c'. emplace ?c ?noot = Some (Inr 1, c') \<and> length (m_rows c') = 2"
    using c' a2 by blast
  show ?thesis
    by (intro conjI) (rule a1 a2' a3 ci)+
qed


subsection \<open>The cascade\<close>














lemma insert_after_set:
  "h \<in> fst ` set rows \<Longrightarrow> set (insert_after h x rows) = insert x (set rows)"
  by (induction rows) auto

lemma insert_after_handles:
  "h \<in> fst ` set rows \<Longrightarrow> fst ` set (insert_after h x rows) = insert (fst x) (fst ` set rows)"
  by (simp add: insert_after_set)


















lemma validate_value_rows: "validate_value (c\<lparr>m_rows := rows\<rparr>) = validate_value c"
  by (intro ext) (simp add: validate_value_def)


declare update_value.simps [simp del]















declare erase.simps [simp del]







lemmas cascade_ev = update_value.simps update_groups.simps fix_children.simps rewrite_keys.simps
  erase.simps erase_groups.simps erase_children.simps
  child_links_def parent_links_def
  get_links_for_parent_def get_links_for_child_def datablock_get_def iequals_def toLowerCopy_def
  tolower_char_def to_char_def uchar_def tolower_def char_of_def List.map_filter_def col_index_def
  field_text_def join_tuple_def row_text_def text_of_def payload_bytes_def matches_parent_def
  new_tuple_def validate_value_def create_item_def uint16_max_def kBufferSize_def other_parent_def
  has_live_parent_def split_row_def clone_row.simps write_keys.simps add_column_def get_column_ix_def
  put_cell_def set_row_def with_rows_def put_category_def fresh_handle_def is_empty_text_def
  plain_column_def mk_cell_def Let_def link_fixture_def link_fixture_validator_def
  typed_link_fixture_def digits_validator_def item_validator_apply_def regex_match_def same_char_def
  validation_error3_def


text \<open>
  The model against the tests.  Test \<open>d5\<close> renames the three parents to 10, 20 and 30 and
  expects the seven child rows to follow without a split; it then erases the parents one
  by one and expects \<open>cat_2\<close> to have 4, 1 and 0 rows.  Test \<open>d4\<close> renames the four parents and
  counts the child rows by \<open>parent_id\<close>.
\<close>

lemma d5_renames:
  "and_then (and_then (update_value (Suc (Suc 0)) (d5_data ''1'' ''2'' ''3'') 0 1 0 ''10'')
                 (\<lambda>db. update_value (Suc (Suc 0)) db 0 2 0 ''20''))
       (\<lambda>db. update_value (Suc (Suc 0)) db 0 3 0 ''30'')
   = Some (Inr (d5_data ''10'' ''20'' ''30''))"
  by (simp add: cascade_ev d5_data_def d5_validator_def d5_link_def child_row_def and_then_def)

lemma d5_erases:
  "sizes_after_erase (d5_data ''10'' ''20'' ''30'') [1, 2, 3] = Some [(2, 4), (1, 1), (0, 0)]"
  by (simp add: cascade_ev d5_data_def d5_validator_def d5_link_def child_row_def)

lemma d4_renames:
  "parent_ids (and_then (and_then (and_then (update_value (Suc (Suc 0)) d4 0 1 0 ''10'')
                 (\<lambda>db. update_value (Suc (Suc 0)) db 0 2 0 ''20''))
       (\<lambda>db. update_value (Suc (Suc 0)) db 0 3 0 ''30''))
       (\<lambda>db. update_value (Suc (Suc 0)) db 0 4 0 ''40''))
   = Some [''10'', ''1'', ''10'', ''2'', ''20'', ''2'', ''20'', ''3'', ''3'', ''30'', ''4'', ''4'', ''4'']"
  by (simp add: cascade_ev d4_def d4_validator_def child_row_def and_then_def parent_ids_def)


subsection \<open>C1: updating a parent key\<close>




subsection \<open>C2: erasing a parent row\<close>




subsection \<open>C4: what a failed call leaves behind\<close>






end
